theory Spec2Isabelle
  imports Complex_Main "HOL-Library.Sublist"
begin

section \<open>Python string primitives used by the job monitor\<close>

text \<open>
  Strings are lists of characters with code points below 256. The Python expression
  \<^verbatim>\<open>sub in s\<close> is the contiguous-sublist test \<^const>\<open>sublist\<close> and
  \<^verbatim>\<open>s.startswith(p)\<close> is \<^const>\<open>prefix\<close>.
\<close>

definition isspace :: "char \<Rightarrow> bool" where
  \<comment> \<open>\<^verbatim>\<open>str.isspace\<close> on one character: the white space of \<^verbatim>\<open>strip()\<close> and \<^verbatim>\<open>split()\<close>.\<close>
  "isspace c \<longleftrightarrow> c \<in> set [CHR 0x09, CHR 0x0A, CHR 0x0B, CHR 0x0C, CHR 0x0D,
     CHR 0x1C, CHR 0x1D, CHR 0x1E, CHR 0x1F, CHR 0x20, CHR 0x85, CHR 0xA0]"

definition isdigit :: "char \<Rightarrow> bool" where
  \<comment> \<open>\<^verbatim>\<open>str.isdigit\<close> on one character: the ASCII digits and the superscripts 2, 3, 1.\<close>
  "isdigit c \<longleftrightarrow> c \<in> set (''0123456789'' @ [CHR 0xB2, CHR 0xB3, CHR 0xB9])"

definition strip :: "string \<Rightarrow> string" where
  "strip s = rev (dropWhile isspace (rev (dropWhile isspace s)))"

fun tokens :: "string \<Rightarrow> string \<Rightarrow> string list" where
  "tokens cur [] = (if cur = [] then [] else [cur])"
| "tokens cur (c # cs) =
     (if isspace c then (if cur = [] then tokens [] cs else cur # tokens [] cs)
      else tokens (cur @ [c]) cs)"

definition split :: "string \<Rightarrow> string list" where
  \<comment> \<open>\<^verbatim>\<open>line.split()\<close>: the maximal runs of characters that are not white space.\<close>
  "split s = tokens [] s"

section \<open>Line classification\<close>

fun find_from :: "nat \<Rightarrow> string list \<Rightarrow> int" where
  "find_from i [] = - 1"
| "find_from i (line # rest) =
     (if sublist ''SOLUTION PROGRESS'' line then int i else find_from (Suc i) rest)"

definition find_solution_progress_section :: "string list \<Rightarrow> int" where
  "find_solution_progress_section lines = find_from 0 lines"

definition is_header_line :: "string \<Rightarrow> bool" where
  "is_header_line line \<longleftrightarrow>
     (prefix ''STEP'' line \<and> sublist ''ORIGIN'' line)
     \<or> (prefix ''STEP'' line \<and> sublist ''TOTAL'' line \<and> sublist ''WALL'' line)
     \<or> (prefix ''INCREMENT'' line \<and> sublist ''TIME'' line)"

definition is_increment_data_line :: "string \<Rightarrow> bool" where
  "is_increment_data_line line \<longleftrightarrow>
     line \<noteq> [] \<and> isdigit (hd line) \<and> sublist ''E+'' line \<and> sublist ''E-'' line"

definition should_skip_line :: "string \<Rightarrow> bool" where
  "should_skip_line line \<longleftrightarrow>
     prefix ''INSTANCE WITH CRITICAL'' line \<or> prefix ''Output Field Frame'' line"

section \<open>Increment records\<close>

datatype pyfloat = NaN | NegInf | Fin real | PosInf

text \<open>
  A Python \<^verbatim>\<open>float\<close>: not-a-number, the two infinities, or a finite value, read as the
  real number it denotes. \<open>flt\<close> is \<^verbatim>\<open><\<close> on floats and \<open>fle\<close> is \<^verbatim>\<open><=\<close>: every comparison
  with NaN is false.
\<close>

fun flt :: "pyfloat \<Rightarrow> pyfloat \<Rightarrow> bool" where
  "flt NaN y = False"
| "flt x NaN = False"
| "flt (Fin a) (Fin b) = (a < b)"
| "flt x NegInf = False"
| "flt NegInf y = True"
| "flt PosInf y = False"
| "flt x PosInf = True"

definition fle :: "pyfloat \<Rightarrow> pyfloat \<Rightarrow> bool" where
  "fle x y \<longleftrightarrow> flt x y \<or> (x = y \<and> x \<noteq> NaN)"

record increment_data =
  increment :: int
  step_time :: pyfloat
  total_time :: pyfloat
  wall_time :: string
  stable_inc :: pyfloat
  kinetic_energy :: pyfloat
  total_energy :: pyfloat

datatype py_error = ValueError | IndexError

text \<open>
  The interpreter's \<^verbatim>\<open>int(s)\<close> and \<^verbatim>\<open>float(s)\<close> are parameters \<open>to_int\<close> and
  \<open>to_float\<close> of the model: \<open>None\<close> stands for \<^verbatim>\<open>ValueError\<close>. A result of \<open>to_float\<close> may
  be NaN or infinite, as \<^verbatim>\<open>float('nan')\<close> and \<^verbatim>\<open>float('inf')\<close> are.
\<close>

definition item :: "'a list \<Rightarrow> nat \<Rightarrow> py_error + 'a" where
  \<comment> \<open>\<^verbatim>\<open>values[k]\<close> for a literal index \<open>k \<ge> 0\<close>.\<close>
  "item xs k = (if k < length xs then Inr (xs ! k) else Inl IndexError)"

definition convert :: "(string \<Rightarrow> 'a option) \<Rightarrow> py_error + string \<Rightarrow> py_error + 'a" where
  "convert conv arg =
     (case arg of Inl e \<Rightarrow> Inl e
      | Inr s \<Rightarrow> (case conv s of None \<Rightarrow> Inl ValueError | Some v \<Rightarrow> Inr v))"

definition parse_increment_data ::
  "(string \<Rightarrow> int option) \<Rightarrow> (string \<Rightarrow> pyfloat option) \<Rightarrow> string list \<Rightarrow> py_error + increment_data"
where
  \<comment> \<open>The dictionary display is evaluated entry by entry, in order; the first failure raises.\<close>
  "parse_increment_data to_int to_float values =
     (case convert to_int (item values 0) of Inl e \<Rightarrow> Inl e | Inr inc \<Rightarrow>
     (case convert to_float (item values 1) of Inl e \<Rightarrow> Inl e | Inr st \<Rightarrow>
     (case convert to_float (item values 2) of Inl e \<Rightarrow> Inl e | Inr tt \<Rightarrow>
     (case item values 3 of Inl e \<Rightarrow> Inl e | Inr wt \<Rightarrow>
     (case convert to_float (item values 4) of Inl e \<Rightarrow> Inl e | Inr si \<Rightarrow>
     (case convert to_float (item values 6) of Inl e \<Rightarrow> Inl e | Inr ke \<Rightarrow>
     (case convert to_float (item values 7) of Inl e \<Rightarrow> Inl e | Inr te \<Rightarrow>
        Inr \<lparr>increment = inc, step_time = st, total_time = tt, wall_time = wt,
             stable_inc = si, kinetic_energy = ke, total_energy = te\<rparr>)))))))"

section \<open>Emitted output\<close>

datatype event =
    LogLine string                \<comment> \<open>\<^verbatim>\<open>log_func(text)\<close>\<close>
  | LogSection string             \<comment> \<open>\<^verbatim>\<open>log_section(title)\<close>\<close>
  | LogIncrement increment_data   \<comment> \<open>\<^verbatim>\<open>_print_increment_data(data)\<close>; the text rendering is not modelled\<close>
  | LogKEIncreasing pyfloat pyfloat     \<comment> \<open>the notice with the minimum and the current kinetic energy\<close>
  | Sleep nat                     \<comment> \<open>\<^verbatim>\<open>time.sleep(seconds)\<close>\<close>
  | Visit nat                     \<comment> \<open>history mark: the loop body starts on line index \<open>i\<close>; no output\<close>

definition print_header :: "event list" where
  "print_header =
     [LogSection ''Inc      Step Time    Wall Time  Stable Inc   KE         Total E   '']"

definition print_increment_data :: "increment_data \<Rightarrow> event list" where
  "print_increment_data data = [LogIncrement data]"

section \<open>The kinetic-energy heuristic\<close>

definition check_ke_minimum ::
  "pyfloat \<Rightarrow> pyfloat option \<Rightarrow> pyfloat option \<Rightarrow> int \<Rightarrow> (pyfloat option \<times> int \<times> bool) \<times> event list"
where
  "check_ke_minimum ke previous_ke min_ke ke_increasing_count =
     (case previous_ke of
        None \<Rightarrow> ((min_ke, ke_increasing_count, False), [])
      | Some prev \<Rightarrow>
          (case min_ke of
             None \<Rightarrow> ((Some ke, 0, False), [])
           | Some m \<Rightarrow>
               if flt ke m then ((Some ke, 0, False), [])
               else if flt prev ke then
                 (let cnt = ke_increasing_count + 1 in
                  if cnt \<ge> 3 then
                    ((min_ke, cnt, True),
                     [LogKEIncreasing m ke,
                      LogLine ''Stopping analysis - minimum energy state reached.''])
                  else ((min_ke, cnt, False), []))
               else ((min_ke, 0, False), [])))"

definition check_completion_status :: "string \<Rightarrow> (bool \<times> bool) \<times> event list" where
  "check_completion_status line =
     (if sublist ''THE ANALYSIS HAS COMPLETED SUCCESSFULLY'' line then
        ((True, True), [LogLine ''\<newline> Job completed successfully.''])
      else if sublist ''ANALYSIS ABORTED'' line \<or> sublist ''ANALYSIS TERMINATED'' line then
        ((True, False), [LogLine ''\<newline> Job did not complete successfully.''])
      else ((False, False), []))"

section \<open>The monitor\<close>

record monitor_state =
  last_printed_line_index :: int
  header_printed :: bool
  previous_ke :: "pyfloat option"
  min_ke :: "pyfloat option"
  ke_increasing_count :: int

definition initial_state :: monitor_state where
  "initial_state = \<lparr>last_printed_line_index = - 1, header_printed = False,
     previous_ke = None, min_ke = None, ke_increasing_count = 0\<rparr>"

definition track_ke :: "monitor_state \<Rightarrow> pyfloat \<Rightarrow> bool \<times> monitor_state \<times> event list" where
  \<comment> \<open>The tracker update of \<^verbatim>\<open>monitor_job\<close> on one parsed sample: the call of
     \<^verbatim>\<open>_check_ke_minimum\<close>, the return on \<^verbatim>\<open>should_exit\<close>, else the new \<^verbatim>\<open>previous_ke\<close>.\<close>
  "track_ke st ke =
     (case check_ke_minimum ke (previous_ke st) (min_ke st) (ke_increasing_count st) of
        ((m, cnt, should_exit), ev) \<Rightarrow>
          (let st' = st\<lparr>min_ke := m, ke_increasing_count := cnt\<rparr> in
           if should_exit then (True, st', ev)
           else (False, st'\<lparr>previous_ke := Some ke\<rparr>, ev)))"

fun feed :: "monitor_state \<Rightarrow> pyfloat list \<Rightarrow> bool \<times> monitor_state" where
  \<comment> \<open>The tracker fed a sequence of samples, one \<open>track_ke\<close> each, until it signals the stop.\<close>
  "feed st [] = (False, st)"
| "feed st (ke # kes) =
     (case track_ke st ke of
        (True, st', ev) \<Rightarrow> (True, st')
      | (False, st', ev) \<Rightarrow> feed st' kes)"

definition stop_signaled :: "pyfloat list \<Rightarrow> bool" where
  "stop_signaled kes = fst (feed initial_state kes)"

definition tracker_after :: "pyfloat list \<Rightarrow> monitor_state" where
  "tracker_after kes = snd (feed initial_state kes)"

definition process_increment ::
  "monitor_state \<Rightarrow> increment_data \<Rightarrow> bool option \<times> monitor_state \<times> event list"
where
  \<comment> \<open>The \<^verbatim>\<open>try\<close> block after a successful parse: one-time header, the record, the tracker.\<close>
  "process_increment st data =
     (let st1 = (if \<not> header_printed st then st\<lparr>header_printed := True\<rparr> else st);
          ev1 = (if \<not> header_printed st then print_header else []) @ print_increment_data data
      in case track_ke st1 (kinetic_energy data) of
           (True, st2, ev2) \<Rightarrow> (Some True, st2, ev1 @ ev2)
         | (False, st2, ev2) \<Rightarrow> (None, st2, ev1 @ ev2))"

definition process_line ::
  "(string \<Rightarrow> int option) \<Rightarrow> (string \<Rightarrow> pyfloat option) \<Rightarrow> monitor_state \<Rightarrow> nat \<Rightarrow> string
     \<Rightarrow> bool option \<times> monitor_state \<times> event list"
where
  \<comment> \<open>The body of the \<^verbatim>\<open>for\<close> loop on line index \<open>i\<close>; \<open>Some r\<close> is \<^verbatim>\<open>return r\<close>.\<close>
  "process_line to_int to_float st i raw =
     (let line = strip raw in
      case check_completion_status line of
        ((True, success), ev) \<Rightarrow> (Some success, st, ev)
      | ((False, success), ev) \<Rightarrow>
          if is_header_line line then (None, st\<lparr>last_printed_line_index := int i\<rparr>, ev)
          else if is_increment_data_line line then
            (let values = split line in
             if length values \<ge> 7 then
               (case parse_increment_data to_int to_float values of
                  Inr data \<Rightarrow>
                    (case process_increment st data of
                       (Some r, st', ev') \<Rightarrow> (Some r, st', ev @ ev')
                     | (None, st', ev') \<Rightarrow>
                         (None, st'\<lparr>last_printed_line_index := int i\<rparr>, ev @ ev'))
                | Inl ValueError \<Rightarrow>
                    (None, st\<lparr>last_printed_line_index := int i\<rparr>,
                     ev @ (if line \<noteq> [] then [LogLine line] else []))
                | Inl IndexError \<Rightarrow>
                    (None, st\<lparr>last_printed_line_index := int i\<rparr>,
                     ev @ (if line \<noteq> [] then [LogLine line] else [])))
             else (None, st\<lparr>last_printed_line_index := int i\<rparr>, ev))
          else if line \<noteq> [] \<and> \<not> should_skip_line line then
            (None, st\<lparr>last_printed_line_index := int i\<rparr>, ev @ [LogLine line])
          else (None, st\<lparr>last_printed_line_index := int i\<rparr>, ev))"

fun scan_lines ::
  "(string \<Rightarrow> int option) \<Rightarrow> (string \<Rightarrow> pyfloat option) \<Rightarrow> monitor_state \<Rightarrow> nat \<Rightarrow> string list
     \<Rightarrow> bool option \<times> monitor_state \<times> event list"
where
  \<comment> \<open>The \<^verbatim>\<open>for\<close> loop from index \<open>i\<close> on, over the lines from \<open>i\<close> to the end of the file.\<close>
  "scan_lines to_int to_float st i [] = (None, st, [])"
| "scan_lines to_int to_float st i (raw # rest) =
     (case process_line to_int to_float st i raw of
        (Some r, st', ev) \<Rightarrow> (Some r, st', Visit i # ev)
      | (None, st', ev) \<Rightarrow>
          (case scan_lines to_int to_float st' (Suc i) rest of
             (r, st'', ev') \<Rightarrow> (r, st'', Visit i # ev @ ev')))"

definition poll ::
  "(string \<Rightarrow> int option) \<Rightarrow> (string \<Rightarrow> pyfloat option) \<Rightarrow> monitor_state \<Rightarrow> string list
     \<Rightarrow> bool option \<times> monitor_state \<times> event list"
where
  \<comment> \<open>One pass of the \<^verbatim>\<open>while\<close> loop over a file that was read as \<open>lines\<close>.\<close>
  "poll to_int to_float st lines =
     (let solution_progress_index = find_solution_progress_section lines in
      if solution_progress_index \<ge> 0 then
        (let start_index = solution_progress_index + 2;
             first = nat (max start_index (last_printed_line_index st + 1))
         in scan_lines to_int to_float st first (drop first lines))
      else (None, st, []))"

text \<open>
  The status file is written by the solver while the monitor runs. A session is driven by
  the list of what each successive \<^verbatim>\<open>open\<close> finds: \<open>None\<close> when the file does not exist,
  \<open>Some lines\<close> otherwise. The result \<open>None\<close> means that the loop is still polling after
  these reads.
\<close>

definition waiting_notice :: "string \<Rightarrow> event" where
  "waiting_notice sta_path =
     LogLine (''Status file not found: '' @ sta_path @ ''. Waiting for file to be created...'')"

fun monitor_loop ::
  "(string \<Rightarrow> int option) \<Rightarrow> (string \<Rightarrow> pyfloat option) \<Rightarrow> string \<Rightarrow> monitor_state
     \<Rightarrow> string list option list \<Rightarrow> bool option \<times> monitor_state \<times> event list"
where
  "monitor_loop to_int to_float sta_path st [] = (None, st, [])"
| "monitor_loop to_int to_float sta_path st (None # later) =
     (case monitor_loop to_int to_float sta_path st later of
        (r, st', ev) \<Rightarrow> (r, st', waiting_notice sta_path # Sleep 5 # ev))"
| "monitor_loop to_int to_float sta_path st (Some lines # later) =
     (case poll to_int to_float st lines of
        (Some r, st', ev) \<Rightarrow> (Some r, st', ev)
      | (None, st', ev) \<Rightarrow>
          (case monitor_loop to_int to_float sta_path st' later of
             (r, st'', ev') \<Rightarrow> (r, st'', ev @ Sleep 5 # ev')))"

definition monitor_job ::
  "(string \<Rightarrow> int option) \<Rightarrow> (string \<Rightarrow> pyfloat option) \<Rightarrow> string \<Rightarrow> string list option list
     \<Rightarrow> bool option \<times> event list"
where
  "monitor_job to_int to_float sta_path reads =
     (case monitor_loop to_int to_float sta_path initial_state reads of
        (r, st, ev) \<Rightarrow> (r, Sleep 5 # ev))"

fun visited :: "event list \<Rightarrow> nat list" where
  "visited [] = []"
| "visited (Visit i # ev) = i # visited ev"
| "visited (e # ev) = visited ev"

fun observed :: "event list \<Rightarrow> pyfloat list" where
  \<comment> \<open>The kinetic energies of the records emitted so far, in order.\<close>
  "observed [] = []"
| "observed (LogIncrement d # ev) = kinetic_energy d # observed ev"
| "observed (e # ev) = observed ev"

definition tracker_of :: "monitor_state \<Rightarrow> pyfloat option \<times> pyfloat option \<times> int" where
  "tracker_of st = (previous_ke st, min_ke st, ke_increasing_count st)"

section \<open>Job submission\<close>

datatype job_action =
    JobCreate string string          \<comment> \<open>\<^verbatim>\<open>mdb.Job(name, model, ...)\<close>\<close>
  | JobSubmit                        \<comment> \<open>\<^verbatim>\<open>job.submit(consistencyChecking=ON)\<close>\<close>
  | Monitor event                    \<comment> \<open>an event of the monitor\<close>
  | Print string                     \<comment> \<open>\<^verbatim>\<open>print(text)\<close>\<close>
  | JobKill                          \<comment> \<open>\<^verbatim>\<open>job.kill()\<close>\<close>
  | SubprocessCall string string     \<comment> \<open>\<^verbatim>\<open>subprocess.call(command, cwd=directory, shell=True)\<close>\<close>

definition create_and_submit_job ::
  "(string \<Rightarrow> int option) \<Rightarrow> (string \<Rightarrow> pyfloat option) \<Rightarrow> (string \<Rightarrow> string \<Rightarrow> string)
     \<Rightarrow> string \<Rightarrow> string \<Rightarrow> string \<Rightarrow> bool \<Rightarrow> string list option list \<Rightarrow> bool \<times> job_action list"
where
  \<comment> \<open>\<open>path_join\<close> is \<^verbatim>\<open>os.path.join\<close>. The result holds whether the call has returned
     and the actions on the job handle and the operating system, in order.\<close>
  "create_and_submit_job to_int to_float path_join job_name TEMP_DIR model_name wait reads =
     (let submitted = [JobCreate job_name model_name, JobSubmit] in
      if wait then
        (let sta_path = path_join TEMP_DIR (job_name @ ''.sta'') in
         case monitor_job to_int to_float sta_path reads of
           (Some True, ev) \<Rightarrow>
             (True, submitted @ map Monitor ev @
                [Print ''\<newline> Job completed successfully by min KE.'',
                 JobKill,
                 SubprocessCall (''abaqus terminate job='' @ job_name) TEMP_DIR])
         | (Some False, ev) \<Rightarrow> (True, submitted @ map Monitor ev)
         | (None, ev) \<Rightarrow> (False, submitted @ map Monitor ev))
      else (True, submitted))"

definition forced_stops :: "job_action list \<Rightarrow> job_action list" where
  \<comment> \<open>The actions that force the solver to stop, in order.\<close>
  "forced_stops acts =
     filter (\<lambda>a. case a of JobKill \<Rightarrow> True | SubprocessCall c d \<Rightarrow> True | _ \<Rightarrow> False) acts"

section \<open>Sample data\<close>

text \<open>
  For the evaluations on concrete inputs, \<^verbatim>\<open>int\<close> and \<^verbatim>\<open>float\<close> are given as the tables
  of the numerals that occur in the examples; every other token of the examples is one
  that the interpreter rejects as well.
\<close>

definition sample_int :: "string \<Rightarrow> int option" where
  "sample_int = map_of [(''0'', 0), (''5'', 5), (''10'', 10), (''15'', 15), (''20'', 20), (''25'', 25)]"

definition sample_float :: "string \<Rightarrow> pyfloat option" where
  "sample_float = map_of [(''0.0E+0'', Fin 0), (''1.0E-3'', Fin (1 / 1000)),
     (''2.0E-3'', Fin (2 / 1000)), (''3.0E-3'', Fin (3 / 1000)), (''1.0E-7'', Fin (1 / 10000000)),
     (''6.0E+0'', Fin 6), (''7.0E+0'', Fin 7), (''8.0E+0'', Fin 8), (''9.0E+0'', Fin 9),
     (''1.0E+1'', Fin 10), (''1.1E+1'', Fin 11), (''nan'', NaN), (''inf'', PosInf)]"

definition sample_file :: "string list" where
  \<comment> \<open>A status file as \<^verbatim>\<open>readlines()\<close> returns it, each line with its line feed.\<close>
  "sample_file = map (\<lambda>s. s @ ''\<newline>'')
     [''  SOLUTION PROGRESS'',
      [],
      '' STEP 1  ORIGIN 0.0000'',
      ''INCREMENT     TIME      TIME      TIME   INCREMENT     ELEMENT     ENERGY     ENERGY'',
      ''0 0.0E+0 0.0E+0 00:00:00 1.0E-7 1 1.0E+1 1.0E+1'',
      ''5 1.0E-3 1.0E-3 00:00:01 1.0E-7 1 8.0E+0 1.0E+1'',
      '' THE ANALYSIS HAS COMPLETED SUCCESSFULLY'']"

definition sample_nan_file :: "string list" where
  \<comment> \<open>A progress table whose kinetic energies are 8, 6, NaN.\<close>
  "sample_nan_file = map (\<lambda>s. s @ ''\<newline>'')
     [''  SOLUTION PROGRESS'',
      [],
      '' STEP 1  ORIGIN 0.0000'',
      ''INCREMENT     TIME      TIME      TIME   INCREMENT     ELEMENT     ENERGY     ENERGY'',
      ''0 0.0E+0 0.0E+0 00:00:00 1.0E-7 1 8.0E+0 1.0E+1'',
      ''5 1.0E-3 1.0E-3 00:00:01 1.0E-7 1 6.0E+0 1.0E+1'',
      ''10 2.0E-3 2.0E-3 00:00:02 1.0E-7 1 nan 1.0E+1'']"

definition sample_rebound_file :: "string list" where
  \<comment> \<open>A progress table whose kinetic energies are 6, 8, 7, 9.\<close>
  "sample_rebound_file = map (\<lambda>s. s @ ''\<newline>'')
     [''  SOLUTION PROGRESS'',
      [],
      '' STEP 1  ORIGIN 0.0000'',
      ''INCREMENT     TIME      TIME      TIME   INCREMENT     ELEMENT     ENERGY     ENERGY'',
      ''0 0.0E+0 0.0E+0 00:00:00 1.0E-7 1 6.0E+0 1.0E+1'',
      ''5 1.0E-3 1.0E-3 00:00:01 1.0E-7 1 8.0E+0 1.0E+1'',
      ''10 2.0E-3 2.0E-3 00:00:02 1.0E-7 1 7.0E+0 1.0E+1'',
      ''15 3.0E-3 3.0E-3 00:00:03 1.0E-7 1 9.0E+0 1.0E+1'']"

section \<open>The tracker in the words of the specification\<close>

text \<open>
  Samples are counted from 1. A sample is a new minimum when the tracker has no minimum
  yet (the second sample) or when it lies below every sample from the second one up to
  its predecessor. A rise counts when the sample is strictly above its predecessor and is
  not a new minimum; the stop is due on the third counted rise in a row. Below and above
  are the comparisons of floats, false whenever a side is NaN.
\<close>

definition new_minimum :: "pyfloat list \<Rightarrow> nat \<Rightarrow> bool" where
  "new_minimum kes k \<longleftrightarrow> 2 \<le> k \<and> (\<forall>i \<in> {2..<k}. flt (kes ! (k - 1)) (kes ! (i - 1)))"

definition counted_rise :: "pyfloat list \<Rightarrow> nat \<Rightarrow> bool" where
  "counted_rise kes k \<longleftrightarrow> 2 \<le> k \<and> flt (kes ! (k - 2)) (kes ! (k - 1)) \<and> \<not> new_minimum kes k"

definition third_rise :: "pyfloat list \<Rightarrow> nat \<Rightarrow> bool" where
  "third_rise kes k \<longleftrightarrow>
     counted_rise kes (k - 2) \<and> counted_rise kes (k - 1) \<and> counted_rise kes k"

definition stops_on :: "pyfloat list \<Rightarrow> nat \<Rightarrow> bool" where
  \<comment> \<open>The stop is signaled upon processing sample \<open>k\<close> of \<open>kes\<close>, and not before.\<close>
  "stops_on kes k \<longleftrightarrow>
     1 \<le> k \<and> k \<le> length kes \<and> stop_signaled (take k kes) \<and> \<not> stop_signaled (take (k - 1) kes)"

subsection \<open>Auxiliary notions for the proofs\<close>

fun streak :: "pyfloat list \<Rightarrow> nat" where
  \<comment> \<open>On the samples so far, newest first: the rises in a row that end at the newest
     sample, a rise counting from the third sample on.\<close>
  "streak (a # b # c # r) = (if flt b a then Suc (streak (b # c # r)) else 0)"
| "streak r = 0"

definition rise3 :: "pyfloat list \<Rightarrow> nat \<Rightarrow> bool" where
  "rise3 kes k \<longleftrightarrow>
     flt (kes ! (k - 4)) (kes ! (k - 3)) \<and> flt (kes ! (k - 3)) (kes ! (k - 2))
     \<and> flt (kes ! (k - 2)) (kes ! (k - 1))"

definition tracks :: "pyfloat list \<Rightarrow> monitor_state \<Rightarrow> bool" where
  \<comment> \<open>The tracker variables after the samples \<open>ys\<close> (newest first), when no stop was
     signaled: the previous sample, the count, and a minimum that the previous sample is
     not below.\<close>
  "tracks ys st \<longleftrightarrow>
     previous_ke st = (case ys of [] \<Rightarrow> None | y # _ \<Rightarrow> Some y)
     \<and> ke_increasing_count st = int (streak ys)
     \<and> (case ys of
          a # b # r \<Rightarrow> (case min_ke st of None \<Rightarrow> False | Some m \<Rightarrow> \<not> flt a m)
        | _ \<Rightarrow> min_ke st = None)"

definition least_of :: "pyfloat \<Rightarrow> pyfloat list \<Rightarrow> bool" where
  \<comment> \<open>\<open>m\<close> is the minimum of the samples \<open>zs\<close>: one of them, and \<^verbatim>\<open><=\<close> each of them.\<close>
  "least_of m zs \<longleftrightarrow> m \<in> set zs \<and> (\<forall>z\<in>set zs. fle m z)"

definition follows :: "monitor_state \<Rightarrow> event list \<Rightarrow> bool option \<Rightarrow> monitor_state \<Rightarrow> bool" where
  \<comment> \<open>A run of the monitor from \<open>st\<close> to \<open>st'\<close> with trace \<open>ev\<close> and result \<open>r\<close> is the
     tracker fed the observed samples: no stop before the last one, the same tracker
     variables at the end, and a stop only with the result true.\<close>
  "follows st ev r st' \<longleftrightarrow>
     \<not> fst (feed st (butlast (observed ev)))
     \<and> tracker_of (snd (feed st (observed ev))) = tracker_of st'
     \<and> (fst (feed st (observed ev)) \<longrightarrow> r = Some True)"

section \<open>Properties of the tracker\<close>

lemma flt_irrefl [simp]: "\<not> flt x x"
  by (cases x) simp_all

lemma flt_trans: "flt x y \<Longrightarrow> flt y z \<Longrightarrow> flt x z"
  by (cases x; cases y; cases z) simp_all

lemma flt_asym: "flt x y \<Longrightarrow> \<not> flt y x"
  by (cases x; cases y) simp_all

lemma flt_total: "x \<noteq> NaN \<Longrightarrow> y \<noteq> NaN \<Longrightarrow> \<not> flt x y \<Longrightarrow> fle y x"
  by (cases x; cases y) (auto simp add: fle_def)

lemma fle_refl: "x \<noteq> NaN \<Longrightarrow> fle x x"
  by (simp add: fle_def)

lemma flt_fle_trans: "flt x y \<Longrightarrow> fle y z \<Longrightarrow> fle x z"
  by (auto simp add: fle_def dest: flt_trans)

lemma feed_snoc:
  "feed st (xs @ [x]) =
     (case feed st xs of
        (True, st') \<Rightarrow> (True, st')
      | (False, st') \<Rightarrow> (case track_ke st' x of (b, st'', ev) \<Rightarrow> (b, st'')))"
  by (induction xs arbitrary: st) (auto split: prod.splits bool.splits)

lemma track_ke_seed:
  "previous_ke st = None \<Longrightarrow> track_ke st x = (False, st\<lparr>previous_ke := Some x\<rparr>, [])"
  by (simp add: track_ke_def check_ke_minimum_def)

lemma track_ke_first_min:
  "previous_ke st = Some p \<Longrightarrow> min_ke st = None \<Longrightarrow>
     track_ke st x = (False, st\<lparr>min_ke := Some x, ke_increasing_count := 0, previous_ke := Some x\<rparr>, [])"
  by (simp add: track_ke_def check_ke_minimum_def)

lemma track_ke_new_min:
  "previous_ke st = Some p \<Longrightarrow> min_ke st = Some m \<Longrightarrow> flt x m \<Longrightarrow>
     track_ke st x = (False, st\<lparr>min_ke := Some x, ke_increasing_count := 0, previous_ke := Some x\<rparr>, [])"
  by (simp add: track_ke_def check_ke_minimum_def)

lemma track_ke_rise:
  "previous_ke st = Some p \<Longrightarrow> min_ke st = Some m \<Longrightarrow> \<not> flt x m \<Longrightarrow> flt p x \<Longrightarrow>
     ke_increasing_count st + 1 < 3 \<Longrightarrow>
     track_ke st x = (False, st\<lparr>min_ke := Some m,
       ke_increasing_count := ke_increasing_count st + 1, previous_ke := Some x\<rparr>, [])"
  by (simp add: track_ke_def check_ke_minimum_def)

lemma track_ke_stop:
  "previous_ke st = Some p \<Longrightarrow> min_ke st = Some m \<Longrightarrow> \<not> flt x m \<Longrightarrow> flt p x \<Longrightarrow>
     3 \<le> ke_increasing_count st + 1 \<Longrightarrow>
     track_ke st x = (True, st\<lparr>min_ke := Some m, ke_increasing_count := ke_increasing_count st + 1\<rparr>,
       [LogKEIncreasing m x, LogLine ''Stopping analysis - minimum energy state reached.''])"
  by (simp add: track_ke_def check_ke_minimum_def)

lemma track_ke_no_rise:
  "previous_ke st = Some p \<Longrightarrow> min_ke st = Some m \<Longrightarrow> \<not> flt x m \<Longrightarrow> \<not> flt p x \<Longrightarrow>
     track_ke st x = (False, st\<lparr>min_ke := Some m, ke_increasing_count := 0, previous_ke := Some x\<rparr>, [])"
  by (simp add: track_ke_def check_ke_minimum_def)

lemma track_ke_min:
  assumes "previous_ke st = Some p" and "track_ke st x = (b, st', ev)"
  shows "min_ke st' =
     (case min_ke st of None \<Rightarrow> Some x | Some m \<Rightarrow> if flt x m then Some x else Some m)"
  using assms
  by (auto simp add: track_ke_def check_ke_minimum_def Let_def split: option.splits if_splits)

lemma tracks_Nil: "tracks [] initial_state"
  by (simp add: tracks_def initial_state_def)

lemma track_tracks:
  assumes "streak ys < 3" and "tracks ys st" and "track_ke st x = (b, st', ev)"
  shows "(b \<longleftrightarrow> 3 \<le> streak (x # ys)) \<and> (\<not> b \<longrightarrow> tracks (x # ys) st')"
proof (cases ys)
  case Nil
  with assms(2) have "previous_ke st = None" "min_ke st = None" "ke_increasing_count st = 0"
    by (simp_all add: tracks_def)
  moreover from this have "track_ke st x = (False, st\<lparr>previous_ke := Some x\<rparr>, [])"
    by (simp add: track_ke_seed)
  ultimately show ?thesis using assms(3) Nil by (auto simp add: tracks_def)
next
  case (Cons a r)
  show ?thesis
  proof (cases r)
    case Nil
    with assms(2) Cons have "previous_ke st = Some a" "min_ke st = None"
      by (simp_all add: tracks_def)
    then have "track_ke st x =
       (False, st\<lparr>min_ke := Some x, ke_increasing_count := 0, previous_ke := Some x\<rparr>, [])"
      by (rule track_ke_first_min)
    with assms(3) Cons Nil show ?thesis by (auto simp add: tracks_def)
  next
    case (Cons c r')
    have ys: "ys = a # c # r'" using \<open>ys = a # r\<close> Cons by simp
    from assms(2) ys obtain m where prev: "previous_ke st = Some a" and mn: "min_ke st = Some m"
      and cnt: "ke_increasing_count st = int (streak (a # c # r'))" and below: "\<not> flt a m"
      by (auto simp add: tracks_def split: option.splits)
    have small: "streak (a # c # r') < 3" using assms(1) ys by simp
    consider (newmin) "flt x m" | (rise) "\<not> flt x m" "flt a x" | (flat) "\<not> flt x m" "\<not> flt a x"
      by blast
    then show ?thesis
    proof cases
      case newmin
      with below have "\<not> flt a x" using flt_trans by blast
      moreover have "track_ke st x =
         (False, st\<lparr>min_ke := Some x, ke_increasing_count := 0, previous_ke := Some x\<rparr>, [])"
        using prev mn newmin by (rule track_ke_new_min)
      ultimately show ?thesis using assms(3) by (auto simp add: ys tracks_def)
    next
      case rise
      show ?thesis
      proof (cases "streak (a # c # r') = 2")
        case True
        then have "3 \<le> ke_increasing_count st + 1" using cnt by simp
        with prev mn rise have "fst (track_ke st x)" by (simp add: track_ke_stop)
        with assms(3) rise True show ?thesis by (simp add: ys)
      next
        case False
        with small have lt: "ke_increasing_count st + 1 < 3" using cnt by simp
        have "track_ke st x = (False, st\<lparr>min_ke := Some m,
           ke_increasing_count := ke_increasing_count st + 1, previous_ke := Some x\<rparr>, [])"
          using prev mn rise lt by (rule track_ke_rise)
        with assms(3) rise False small cnt show ?thesis
          by (auto simp add: ys tracks_def)
      qed
    next
      case flat
      have "track_ke st x =
         (False, st\<lparr>min_ke := Some m, ke_increasing_count := 0, previous_ke := Some x\<rparr>, [])"
        using prev mn flat by (rule track_ke_no_rise)
      with assms(3) flat show ?thesis by (auto simp add: ys tracks_def)
    qed
  qed
qed

lemma feed_tracks:
  "\<not> stop_signaled xs \<Longrightarrow> tracks (rev xs) (tracker_after xs) \<and> streak (rev xs) < 3"
proof (induction xs rule: rev_induct)
  case Nil
  show ?case by (simp add: tracker_after_def tracks_Nil)
next
  case (snoc x xs)
  obtain b0 st0 where f0: "feed initial_state xs = (b0, st0)" by (cases "feed initial_state xs")
  obtain b st ev where t: "track_ke st0 x = (b, st, ev)" by (cases "track_ke st0 x")
  from snoc.prems f0 have nb0: "\<not> b0"
    by (auto simp add: stop_signaled_def feed_snoc split: bool.splits)
  then have "\<not> stop_signaled xs" using f0 by (simp add: stop_signaled_def)
  with snoc.IH have st0: "tracks (rev xs) st0" and small: "streak (rev xs) < 3"
    using f0 by (simp_all add: tracker_after_def)
  have res: "feed initial_state (xs @ [x]) = (b, st)"
    using f0 nb0 t by (simp add: feed_snoc)
  with snoc.prems have nb: "\<not> b" by (simp add: stop_signaled_def)
  from track_tracks [OF small st0 t] nb
  have "tracks (x # rev xs) st" and "\<not> 3 \<le> streak (x # rev xs)" by blast+
  with res show ?case by (simp add: tracker_after_def)
qed

lemma stop_signaled_snoc:
  "stop_signaled (xs @ [x]) \<longleftrightarrow> stop_signaled xs \<or> 3 \<le> streak (x # rev xs)"
proof (cases "stop_signaled xs")
  case True
  then show ?thesis
    by (cases "feed initial_state xs") (simp add: stop_signaled_def feed_snoc)
next
  case False
  obtain st0 where f0: "feed initial_state xs = (False, st0)"
    using False by (cases "feed initial_state xs") (simp add: stop_signaled_def)
  obtain b st ev where t: "track_ke st0 x = (b, st, ev)" by (cases "track_ke st0 x")
  from feed_tracks [OF False] f0 have st0: "tracks (rev xs) st0" and small: "streak (rev xs) < 3"
    by (simp_all add: tracker_after_def)
  from track_tracks [OF small st0 t] have "b \<longleftrightarrow> 3 \<le> streak (x # rev xs)" by blast
  moreover have "stop_signaled (xs @ [x]) = b"
    using f0 t by (simp add: stop_signaled_def feed_snoc)
  ultimately show ?thesis using False by simp
qed

lemma stop_signaled_butlast: "\<not> stop_signaled xs \<Longrightarrow> \<not> stop_signaled (butlast xs)"
  by (cases xs rule: rev_cases) (simp_all add: stop_signaled_snoc)

lemma streak_ge3:
  "3 \<le> streak ys \<longleftrightarrow>
     (\<exists>a b c d e r. ys = a # b # c # d # e # r \<and> flt d c \<and> flt c b \<and> flt b a)"
proof
  assume h: "3 \<le> streak ys"
  then obtain a b c r where ys: "ys = a # b # c # r" and ab: "flt b a" and s1: "2 \<le> streak (b # c # r)"
    by (cases ys rule: streak.cases) (auto split: if_splits)
  from s1 obtain d r' where r: "r = d # r'" and bc: "flt c b" and s2: "1 \<le> streak (c # d # r')"
    by (cases "b # c # r" rule: streak.cases) (auto split: if_splits)
  from s2 obtain e r'' where r': "r' = e # r''" and cd: "flt d c"
    by (cases "c # d # r'" rule: streak.cases) (auto split: if_splits)
  show "\<exists>a b c d e r. ys = a # b # c # d # e # r \<and> flt d c \<and> flt c b \<and> flt b a"
    using ys r r' ab bc cd by blast
next
  assume "\<exists>a b c d e r. ys = a # b # c # d # e # r \<and> flt d c \<and> flt c b \<and> flt b a"
  then show "3 \<le> streak ys" by auto
qed

lemma streak_ge3_nth:
  "3 \<le> streak ys \<longleftrightarrow>
     5 \<le> length ys \<and> flt (ys ! 3) (ys ! 2) \<and> flt (ys ! 2) (ys ! 1) \<and> flt (ys ! 1) (ys ! 0)"
proof
  assume "3 \<le> streak ys"
  then obtain a b c d e r where "ys = a # b # c # d # e # r" "flt d c" "flt c b" "flt b a"
    unfolding streak_ge3 by blast
  then show "5 \<le> length ys \<and> flt (ys ! 3) (ys ! 2) \<and> flt (ys ! 2) (ys ! 1) \<and> flt (ys ! 1) (ys ! 0)"
    by (simp add: numeral_3_eq_3 numeral_2_eq_2)
next
  assume h: "5 \<le> length ys \<and> flt (ys ! 3) (ys ! 2) \<and> flt (ys ! 2) (ys ! 1) \<and> flt (ys ! 1) (ys ! 0)"
  then obtain a b c d e r where ys: "ys = a # b # c # d # e # r"
    by (auto simp add: numeral_eq_Suc Suc_le_length_iff)
  with h show "3 \<le> streak ys"
    by (simp add: numeral_3_eq_3 numeral_2_eq_2)
qed

lemma streak_rev_window:
  "3 \<le> streak (rev xs) \<longleftrightarrow> 5 \<le> length xs \<and> rise3 xs (length xs)"
proof (cases "5 \<le> length xs")
  case True
  then have "xs \<noteq> []" by auto
  with True have "rev xs ! 0 = xs ! (length xs - 1)" "rev xs ! 1 = xs ! (length xs - 2)"
    "rev xs ! 2 = xs ! (length xs - 3)" "rev xs ! 3 = xs ! (length xs - 4)"
    using rev_nth [of 0 xs] rev_nth [of 1 xs] rev_nth [of 2 xs] rev_nth [of 3 xs]
    by (simp_all add: numeral_eq_Suc)
  with True show ?thesis
    by (simp add: streak_ge3_nth rise3_def)
next
  case False
  then show ?thesis by (simp add: streak_ge3_nth)
qed

lemma rise3_append:
  "1 \<le> k \<Longrightarrow> k \<le> length xs \<Longrightarrow> rise3 (xs @ zs) k = rise3 xs k"
  by (simp add: rise3_def nth_append)

lemma rise3_take:
  "1 \<le> j \<Longrightarrow> j \<le> k \<Longrightarrow> rise3 (take k xs) j = rise3 xs j"
  by (simp add: rise3_def)

lemma stop_iff_window:
  "stop_signaled xs \<longleftrightarrow> (\<exists>k. 5 \<le> k \<and> k \<le> length xs \<and> rise3 xs k)"
proof (induction xs rule: rev_induct)
  case Nil
  show ?case by (simp add: stop_signaled_def)
next
  case (snoc x xs)
  have "stop_signaled (xs @ [x]) \<longleftrightarrow> stop_signaled xs \<or> 3 \<le> streak (rev (xs @ [x]))"
    by (simp add: stop_signaled_snoc)
  also have "\<dots> \<longleftrightarrow> (\<exists>k. 5 \<le> k \<and> k \<le> length xs \<and> rise3 (xs @ [x]) k)
      \<or> (5 \<le> length (xs @ [x]) \<and> rise3 (xs @ [x]) (length (xs @ [x])))"
    unfolding streak_rev_window snoc.IH using rise3_append [of _ xs "[x]"]
    by (metis (no_types, lifting) One_nat_def Suc_leI le_trans zero_less_numeral)
  also have "\<dots> \<longleftrightarrow> (\<exists>k. 5 \<le> k \<and> k \<le> length (xs @ [x]) \<and> rise3 (xs @ [x]) k)"
    (is "?A \<or> ?B \<longleftrightarrow> ?C")
  proof
    assume "?A \<or> ?B"
    then show ?C
    proof
      assume ?A
      then obtain k where "5 \<le> k" "k \<le> length xs" "rise3 (xs @ [x]) k" by blast
      then have "5 \<le> k \<and> k \<le> length (xs @ [x]) \<and> rise3 (xs @ [x]) k" by simp
      then show ?C by blast
    next
      assume ?B
      then have "5 \<le> length (xs @ [x]) \<and> length (xs @ [x]) \<le> length (xs @ [x])
        \<and> rise3 (xs @ [x]) (length (xs @ [x]))" by blast
      then show ?C by blast
    qed
  next
    assume ?C
    then obtain k where k: "5 \<le> k" "k \<le> length (xs @ [x])" "rise3 (xs @ [x]) k" by blast
    show "?A \<or> ?B"
    proof (cases "k = length (xs @ [x])")
      case True
      with k show ?thesis by blast
    next
      case False
      with k(2) have "k \<le> length xs" by simp
      with k show ?thesis by blast
    qed
  qed
  finally show ?case .
qed

lemma stops_on_iff:
  "stops_on xs k \<longleftrightarrow>
     5 \<le> k \<and> k \<le> length xs \<and> rise3 xs k \<and> (\<forall>j. 5 \<le> j \<and> j < k \<longrightarrow> \<not> rise3 xs j)"
proof (cases "1 \<le> k \<and> k \<le> length xs")
  case False
  then show ?thesis by (auto simp add: stops_on_def)
next
  case True
  have a: "stop_signaled (take k xs) \<longleftrightarrow> (\<exists>j. 5 \<le> j \<and> j \<le> k \<and> rise3 xs j)"
    unfolding stop_iff_window using True rise3_take [of _ k xs]
    by (auto simp add: min_def)
  have b: "stop_signaled (take (k - 1) xs) \<longleftrightarrow> (\<exists>j. 5 \<le> j \<and> j < k \<and> rise3 xs j)"
    unfolding stop_iff_window using True rise3_take [of _ "k - 1" xs]
    by (auto simp add: min_def)
  have c: "(\<exists>j. 5 \<le> j \<and> j \<le> k \<and> rise3 xs j) \<and> \<not> (\<exists>j. 5 \<le> j \<and> j < k \<and> rise3 xs j)
      \<longleftrightarrow> 5 \<le> k \<and> rise3 xs k \<and> (\<forall>j. 5 \<le> j \<and> j < k \<longrightarrow> \<not> rise3 xs j)"
    (is "?L \<longleftrightarrow> ?R")
  proof
    assume l: ?L
    then obtain j where j: "5 \<le> j" "j \<le> k" "rise3 xs j" by blast
    with l have "\<not> j < k" by blast
    with j have "j = k" by simp
    with j l show ?R by blast
  next
    assume ?R
    then show ?L by blast
  qed
  show ?thesis
    unfolding stops_on_def a b using True c by blast
qed

lemma counted_rise_iff:
  "counted_rise kes k \<longleftrightarrow> 3 \<le> k \<and> flt (kes ! (k - 2)) (kes ! (k - 1))"
proof
  assume h: "counted_rise kes k"
  then have "k \<noteq> 2" by (auto simp add: counted_rise_def new_minimum_def)
  with h show "3 \<le> k \<and> flt (kes ! (k - 2)) (kes ! (k - 1))"
    by (simp add: counted_rise_def)
next
  assume h: "3 \<le> k \<and> flt (kes ! (k - 2)) (kes ! (k - 1))"
  then have "k - 1 \<in> {2..<k}" by auto
  moreover have "k - 1 - 1 = k - 2" by simp
  then have "\<not> flt (kes ! (k - 1)) (kes ! (k - 1 - 1))" using h flt_asym by simp
  ultimately have "\<not> new_minimum kes k" unfolding new_minimum_def by blast
  with h show "counted_rise kes k" by (simp add: counted_rise_def)
qed

lemma third_rise_iff: "third_rise kes k \<longleftrightarrow> 5 \<le> k \<and> rise3 kes k"
proof (cases "5 \<le> k")
  case True
  then have "k - 2 - 2 = k - 4" "k - 2 - 1 = k - 3" "k - 1 - 2 = k - 3" "k - 1 - 1 = k - 2"
    by simp_all
  moreover from True have "3 \<le> k - 2" "3 \<le> k - 1" "3 \<le> k" by arith+
  ultimately show ?thesis
    using True by (simp add: third_rise_def counted_rise_iff rise3_def)
next
  case False
  then show ?thesis by (simp add: third_rise_def counted_rise_iff)
qed

lemma least_of_snoc:
  assumes "least_of m zs" and "x \<noteq> NaN" and "NaN \<notin> set zs"
  shows "least_of (if flt x m then x else m) (zs @ [x])"
proof (cases "flt x m")
  case True
  have "fle x z" if "z \<in> set zs" for z
    using assms(1) that True by (auto simp add: least_of_def intro: flt_fle_trans)
  with True assms(2) show ?thesis by (auto simp add: least_of_def fle_refl)
next
  case False
  from assms(1,3) have "m \<noteq> NaN" by (auto simp add: least_of_def)
  with False assms(2) have "fle m x" by (simp add: flt_total)
  with False assms(1) show ?thesis by (auto simp add: least_of_def)
qed

lemma min_ke_after:
  assumes "NaN \<notin> set (tl kes)" and "\<not> stop_signaled (butlast kes)"
  shows "(length kes < 2 \<longrightarrow> min_ke (tracker_after kes) = None)
     \<and> (2 \<le> length kes \<longrightarrow> (\<exists>m. min_ke (tracker_after kes) = Some m \<and> least_of m (tl kes)))"
  using assms
proof (induction kes rule: rev_induct)
  case Nil
  show ?case by (simp add: tracker_after_def initial_state_def)
next
  case (snoc x xs)
  from snoc.prems have ns: "\<not> stop_signaled xs" by simp
  then have nsb: "\<not> stop_signaled (butlast xs)" by (rule stop_signaled_butlast)
  from snoc.prems have nan: "NaN \<notin> set (tl xs)" by (cases xs) auto
  note IH = snoc.IH [OF nan nsb]
  obtain st0 where f0: "feed initial_state xs = (False, st0)"
    using ns by (cases "feed initial_state xs") (simp add: stop_signaled_def)
  then have ta: "tracker_after xs = st0" by (simp add: tracker_after_def)
  obtain b st ev where t: "track_ke st0 x = (b, st, ev)" by (cases "track_ke st0 x")
  have res: "tracker_after (xs @ [x]) = st"
    using f0 t by (simp add: tracker_after_def feed_snoc)
  from feed_tracks [OF ns] ta have tr: "tracks (rev xs) st0" by simp
  show ?case
  proof (cases xs)
    case Nil
    with tr have "previous_ke st0 = None" "min_ke st0 = None" by (simp_all add: tracks_def)
    with t have "min_ke st = None" by (auto simp add: track_ke_seed)
    with res Nil show ?thesis by simp
  next
    case (Cons a r)
    then have "rev xs \<noteq> []" by simp
    then obtain p where prev: "previous_ke st0 = Some p"
      using tr by (cases "rev xs") (simp_all add: tracks_def)
    note m = track_ke_min [OF prev t]
    have xn: "x \<noteq> NaN" using snoc.prems(1) Cons by auto
    show ?thesis
    proof (cases r)
      case Nil
      with Cons IH ta have "min_ke st0 = None" by simp
      with m have "min_ke st = Some x" by simp
      with res Cons Nil xn show ?thesis by (simp add: least_of_def fle_refl)
    next
      case (Cons c r')
      with \<open>xs = a # r\<close> IH ta obtain m0 where m0: "min_ke st0 = Some m0" "least_of m0 (tl xs)"
        by auto
      with m have "min_ke st = Some (if flt x m0 then x else m0)" by simp
      moreover have "least_of (if flt x m0 then x else m0) (tl xs @ [x])"
        using m0(2) xn nan by (rule least_of_snoc)
      moreover have "tl (xs @ [x]) = tl xs @ [x]" using \<open>xs = a # r\<close> by simp
      ultimately show ?thesis using res \<open>xs = a # r\<close> by simp
    qed
  qed
qed

lemma track_ke_flag_header:
  "fst (track_ke (st\<lparr>header_printed := h\<rparr>) ke) = fst (track_ke st ke)"
  by (simp add: track_ke_def Let_def split: prod.splits)

lemma process_increment_outcome:
  "fst (process_increment st d) = (if fst (track_ke st (kinetic_energy d)) then Some True else None)"
proof -
  define st1 where "st1 = (if \<not> header_printed st then st\<lparr>header_printed := True\<rparr> else st)"
  have "fst (track_ke st1 (kinetic_energy d)) = fst (track_ke st (kinetic_energy d))"
    unfolding st1_def by (simp add: track_ke_flag_header)
  then show ?thesis
    unfolding process_increment_def Let_def st1_def [symmetric]
    by (cases "track_ke st1 (kinetic_energy d)") (auto split: bool.splits)
qed

section \<open>Claims about the kinetic-energy tracker\<close>

text \<open>
  C5, as stated, fails: \<^verbatim>\<open>float('nan')\<close> is a sample the tracker can be fed, and every
  comparison with it is false. After the samples 5, NaN, 3, 2 (no stop) the minimum is
  NaN, set by the second sample and never replaced; it is not the minimum of the samples
  from the second one on, not being \<^verbatim>\<open><=\<close> the sample 2.
\<close>

theorem minimum_stuck_at_nan:
  "\<not> stop_signaled [Fin 5, NaN, Fin 3, Fin 2]
   \<and> min_ke (tracker_after [Fin 5, NaN, Fin 3, Fin 2]) = Some NaN
   \<and> Fin 2 \<in> set (tl [Fin 5, NaN, Fin 3, Fin 2])
   \<and> \<not> fle NaN (Fin 2)"
  by (simp add: stop_signaled_def tracker_after_def initial_state_def track_ke_def
      check_ke_minimum_def fle_def)

text \<open>
  C5, amended: when no sample from the second one on is NaN, after the tracker has
  processed the samples \<open>kes\<close> (no stop before the last one), the minimum is absent when
  there are fewer than two samples, and otherwise it is the minimum of the samples from
  the second one on: one of them, and \<^verbatim>\<open><=\<close> each of them. The first sample is never part
  of it.
\<close>

theorem minimum_is_min_from_second_sample:
  assumes "NaN \<notin> set (tl kes)" and "\<not> stop_signaled (butlast kes)"
  shows "(length kes < 2 \<longrightarrow> min_ke (tracker_after kes) = None)
     \<and> (2 \<le> length kes \<longrightarrow> (\<exists>m. min_ke (tracker_after kes) = Some m \<and> least_of m (tl kes)))"
  using assms by (rule min_ke_after)

theorem minimum_is_min_from_second_sample_witness:
  "NaN \<notin> set (tl [Fin 10, Fin 8, Fin 6, PosInf, Fin 7, Fin 9, Fin 11])
   \<and> \<not> stop_signaled (butlast [Fin 10, Fin 8, Fin 6, PosInf, Fin 7, Fin 9, Fin 11])
   \<and> min_ke (tracker_after [Fin 10, Fin 8, Fin 6, PosInf, Fin 7, Fin 9, Fin 11]) = Some (Fin 6)
   \<and> least_of (Fin 6) (tl [Fin 10, Fin 8, Fin 6, PosInf, Fin 7, Fin 9, Fin 11])
   \<and> NaN \<notin> set (tl [NaN]) \<and> \<not> stop_signaled (butlast [NaN])
   \<and> min_ke (tracker_after [NaN]) = None"
proof -
  let ?K = "[Fin 10, Fin 8, Fin 6, PosInf, Fin 7, Fin 9, Fin 11]"
  have a: "NaN \<notin> set (tl ?K)" by simp
  have b: "\<not> stop_signaled (butlast ?K)"
    by (simp add: stop_signaled_def initial_state_def track_ke_def check_ke_minimum_def)
  have c: "min_ke (tracker_after ?K) = Some (Fin 6)"
    by (simp add: tracker_after_def initial_state_def track_ke_def check_ke_minimum_def)
  have "2 \<le> length ?K" by simp
  with minimum_is_min_from_second_sample [OF a b]
  obtain m where "min_ke (tracker_after ?K) = Some m" "least_of m (tl ?K)" by blast
  with c have d: "least_of (Fin 6) (tl ?K)" by simp
  have e: "NaN \<notin> set (tl [NaN])" by simp
  have f: "\<not> stop_signaled (butlast [NaN])" by (simp add: stop_signaled_def)
  have "length [NaN] < 2" by simp
  with minimum_is_min_from_second_sample [OF e f]
  have g: "min_ke (tracker_after [NaN]) = None" by blast
  from a b c d e f g show ?thesis by (intro conjI)
qed

text \<open>
  C6: the stop is signaled upon processing sample \<open>k\<close>, and not before, exactly when
  sample \<open>k\<close> is the first one that completes three counted rises in a row. With a
  previous sample \<open>p\<close> present, a new minimum (no minimum yet, or a sample below it) sets
  the count to 0, and so does a sample that is not a new minimum and not above \<open>p\<close>; in
  both cases there is no stop. The monitor turns the signal into the successful outcome.
\<close>

theorem stop_on_third_consecutive_rise:
  "(stops_on kes k \<longleftrightarrow> k \<le> length kes \<and> third_rise kes k \<and> (\<forall>j<k. \<not> third_rise kes j))
   \<and> fst (check_ke_minimum ke (Some p) None c) = (Some ke, 0, False)
   \<and> (flt ke m \<longrightarrow> fst (check_ke_minimum ke (Some p) (Some m) c) = (Some ke, 0, False))
   \<and> (\<not> flt ke m \<and> \<not> flt p ke \<longrightarrow>
        fst (check_ke_minimum ke (Some p) (Some m) c) = (Some m, 0, False))
   \<and> fst (process_increment st d) = (if fst (track_ke st (kinetic_energy d)) then Some True else None)"
proof (intro conjI impI)
  show "stops_on kes k \<longleftrightarrow> k \<le> length kes \<and> third_rise kes k \<and> (\<forall>j<k. \<not> third_rise kes j)"
    unfolding stops_on_iff third_rise_iff by auto
  show "fst (check_ke_minimum ke (Some p) None c) = (Some ke, 0, False)"
    by (simp add: check_ke_minimum_def)
  show "fst (check_ke_minimum ke (Some p) (Some m) c) = (Some ke, 0, False)" if "flt ke m"
    using that by (simp add: check_ke_minimum_def)
  show "fst (check_ke_minimum ke (Some p) (Some m) c) = (Some m, 0, False)"
    if "\<not> flt ke m \<and> \<not> flt p ke"
    using that by (simp add: check_ke_minimum_def)
  show "fst (process_increment st d) = (if fst (track_ke st (kinetic_energy d)) then Some True else None)"
    by (rule process_increment_outcome)
qed

theorem stop_on_third_consecutive_rise_witness:
  "stops_on [Fin 10, Fin 8, Fin 6, Fin 7, Fin 9, Fin 11] 6
   \<and> stops_on [Fin 10, Fin 8, Fin 9, Fin 7, Fin 9, Fin 10, Fin 11] 7
   \<and> fst (check_ke_minimum (Fin 7) (Some (Fin 9)) (Some (Fin 8)) 2) = (Some (Fin 7), 0, False)
   \<and> fst (check_ke_minimum (Fin 9) (Some (Fin 9)) (Some (Fin 7)) 2) = (Some (Fin 7), 0, False)"
proof -
  note t = stop_on_third_consecutive_rise
  let ?A = "[Fin 10, Fin 8, Fin 6, Fin 7, Fin 9, Fin 11]"
  let ?B = "[Fin 10, Fin 8, Fin 9, Fin 7, Fin 9, Fin 10, Fin 11]"
  have a: "6 \<le> length ?A \<and> third_rise ?A 6 \<and> (\<forall>j<6. \<not> third_rise ?A j)"
    by (simp add: third_rise_def counted_rise_def new_minimum_def numeral_eq_Suc All_less_Suc
        atLeastLessThanSuc)
  have b: "7 \<le> length ?B \<and> third_rise ?B 7 \<and> (\<forall>j<7. \<not> third_rise ?B j)"
    by (simp add: third_rise_def counted_rise_def new_minimum_def numeral_eq_Suc All_less_Suc
        atLeastLessThanSuc)
  from a t [THEN conjunct1, of ?A 6]
  have 1: "stops_on ?A 6" by (rule rev_iffD2)
  from b t [THEN conjunct1, of ?B 7]
  have 2: "stops_on ?B 7" by (rule rev_iffD2)
  have "flt (Fin 7) (Fin 8)" by simp
  with t [THEN conjunct2, THEN conjunct2, THEN conjunct1, of "Fin 7" "Fin 8" "Fin 9" 2]
  have 3: "fst (check_ke_minimum (Fin 7) (Some (Fin 9)) (Some (Fin 8)) 2) = (Some (Fin 7), 0, False)"
    by (rule mp)
  have "\<not> flt (Fin 9) (Fin 7) \<and> \<not> flt (Fin 9) (Fin 9)" by simp
  with t [THEN conjunct2, THEN conjunct2, THEN conjunct2, THEN conjunct1, of "Fin 9" "Fin 7" "Fin 9" 2]
  have 4: "fst (check_ke_minimum (Fin 9) (Some (Fin 9)) (Some (Fin 7)) 2) = (Some (Fin 7), 0, False)"
    by (rule mp)
  from 1 2 3 4 show ?thesis by (intro conjI)
qed

text \<open>
  C10: no stop is signaled while the first four samples are processed, whatever they are,
  and the fifth sample can bring it.
\<close>

theorem no_stop_before_fifth_sample:
  "\<not> stop_signaled (take 4 kes) \<and> stops_on [Fin 1, Fin 2, Fin 3, Fin 4, Fin 5] 5"
proof
  show "\<not> stop_signaled (take 4 kes)"
    by (simp add: stop_iff_window)
  show "stops_on [Fin 1, Fin 2, Fin 3, Fin 4, Fin 5] 5"
    by (simp add: stops_on_def stop_signaled_def initial_state_def track_ke_def check_ke_minimum_def)
qed

section \<open>Properties of the monitor\<close>

lemma visited_append: "visited (xs @ ys) = visited xs @ visited ys"
  by (induction xs rule: visited.induct) simp_all

lemma check_completion_status_visited: "visited (snd (check_completion_status line)) = []"
  by (simp add: check_completion_status_def)

lemma track_ke_visited: "track_ke st ke = (b, st', ev) \<Longrightarrow> visited ev = []"
  by (auto simp add: track_ke_def check_ke_minimum_def Let_def split: option.splits if_splits)

lemma track_ke_last:
  "track_ke st ke = (b, st', ev) \<Longrightarrow> last_printed_line_index st' = last_printed_line_index st"
  by (auto simp add: track_ke_def Let_def split: prod.splits if_splits)

lemma process_increment_visited: "process_increment st d = (r, st', ev) \<Longrightarrow> visited ev = []"
  by (auto simp add: process_increment_def Let_def visited_append print_header_def
      print_increment_data_def split: prod.splits bool.splits if_splits dest: track_ke_visited)

lemma process_increment_last:
  "process_increment st d = (r, st', ev) \<Longrightarrow> last_printed_line_index st' = last_printed_line_index st"
  by (auto simp add: process_increment_def Let_def split: prod.splits bool.splits if_splits
      dest: track_ke_last)

lemma process_line_visited: "process_line ti tf st i raw = (r, st', ev) \<Longrightarrow> visited ev = []"
  using check_completion_status_visited [of "strip raw"]
  by (auto simp add: process_line_def Let_def visited_append
      split: prod.splits bool.splits if_splits sum.splits py_error.splits option.splits
      dest: process_increment_visited)

lemma process_line_last:
  "process_line ti tf st i raw = (None, st', ev) \<Longrightarrow> last_printed_line_index st' = int i"
  by (auto simp add: process_line_def Let_def
      split: prod.splits bool.splits if_splits sum.splits py_error.splits option.splits)

lemma process_line_last_return:
  "process_line ti tf st i raw = (Some r, st', ev) \<Longrightarrow>
     last_printed_line_index st' = last_printed_line_index st"
  by (auto simp add: process_line_def Let_def
      split: prod.splits bool.splits if_splits sum.splits py_error.splits option.splits
      dest: process_increment_last)

lemma process_line_completion:
  "check_completion_status (strip raw) = ((True, success), ev) \<Longrightarrow>
     process_line ti tf st i raw = (Some success, st, ev)"
  by (simp add: process_line_def)

lemma sublist_dropWhile:
  "m \<noteq> [] \<Longrightarrow> \<not> P (hd m) \<Longrightarrow> sublist m s \<Longrightarrow> sublist m (dropWhile P s)"
proof (induction s)
  case Nil
  then show ?case by simp
next
  case (Cons x xs)
  show ?case
  proof (cases "P x")
    case True
    with Cons.prems have "\<not> prefix m (x # xs)"
      by (cases m) auto
    with Cons.prems have "sublist m xs" by (simp add: sublist_Cons_right)
    with Cons True show ?thesis by simp
  next
    case False
    with Cons.prems show ?thesis by simp
  qed
qed

lemma sublist_strip:
  assumes "m \<noteq> []" "\<not> isspace (hd m)" "\<not> isspace (last m)"
  shows "sublist m (strip s) \<longleftrightarrow> sublist m s"
proof
  assume "sublist m s"
  then have "sublist m (dropWhile isspace s)"
    using assms by (simp add: sublist_dropWhile)
  then have "sublist (rev m) (rev (dropWhile isspace s))" by (simp add: sublist_rev)
  then have "sublist (rev m) (dropWhile isspace (rev (dropWhile isspace s)))"
    using assms by (intro sublist_dropWhile) (simp_all add: hd_rev)
  then show "sublist m (strip s)"
    unfolding strip_def using sublist_rev [of m "rev (dropWhile isspace (rev (dropWhile isspace s)))"]
    by simp
next
  assume "sublist m (strip s)"
  then have "sublist (rev m) (dropWhile isspace (rev (dropWhile isspace s)))"
    unfolding strip_def using sublist_rev [of m "rev (dropWhile isspace (rev (dropWhile isspace s)))"]
    by simp
  moreover have "sublist (dropWhile isspace (rev (dropWhile isspace s))) (rev (dropWhile isspace s))"
    by (simp add: suffix_dropWhile suffix_imp_sublist)
  ultimately have "sublist (rev m) (rev (dropWhile isspace s))"
    by (rule sublist_order.order.trans)
  then have "sublist m (dropWhile isspace s)" by (simp add: sublist_rev)
  moreover have "sublist (dropWhile isspace s) s"
    by (simp add: suffix_dropWhile suffix_imp_sublist)
  ultimately show "sublist m s" by (rule sublist_order.order.trans)
qed

lemma completion_status_raw:
  "fst (check_completion_status (strip raw)) =
     (sublist ''THE ANALYSIS HAS COMPLETED SUCCESSFULLY'' raw
        \<or> sublist ''ANALYSIS ABORTED'' raw \<or> sublist ''ANALYSIS TERMINATED'' raw,
      sublist ''THE ANALYSIS HAS COMPLETED SUCCESSFULLY'' raw)"
proof -
  have "sublist ''THE ANALYSIS HAS COMPLETED SUCCESSFULLY'' (strip raw)
      \<longleftrightarrow> sublist ''THE ANALYSIS HAS COMPLETED SUCCESSFULLY'' raw"
    by (rule sublist_strip) (simp_all add: isspace_def)
  moreover have "sublist ''ANALYSIS ABORTED'' (strip raw) \<longleftrightarrow> sublist ''ANALYSIS ABORTED'' raw"
    by (rule sublist_strip) (simp_all add: isspace_def)
  moreover have "sublist ''ANALYSIS TERMINATED'' (strip raw) \<longleftrightarrow> sublist ''ANALYSIS TERMINATED'' raw"
    by (rule sublist_strip) (simp_all add: isspace_def)
  ultimately show ?thesis
    by (simp add: check_completion_status_def)
qed

lemma scan_lines_append:
  "scan_lines ti tf st i (xs @ ys) =
     (case scan_lines ti tf st i xs of
        (Some r, st', ev) \<Rightarrow> (Some r, st', ev)
      | (None, st', ev) \<Rightarrow>
          (case scan_lines ti tf st' (i + length xs) ys of
             (r, st'', ev') \<Rightarrow> (r, st'', ev @ ev')))"
  by (induction xs arbitrary: st i) (auto split: prod.splits option.splits)

lemma scan_lines_trace:
  "scan_lines ti tf st i ls = (r, st', ev) \<Longrightarrow>
     (\<exists>k\<le>length ls. visited ev = [i ..< i + k] \<and> (r = None \<longrightarrow> k = length ls))
     \<and> (r = None \<and> ls \<noteq> [] \<longrightarrow> last_printed_line_index st' = int (i + length ls) - 1)
     \<and> (ls = [] \<longrightarrow> st' = st)
     \<and> (last_printed_line_index st' = last_printed_line_index st \<or> int i \<le> last_printed_line_index st')"
proof (induction ls arbitrary: st i r st' ev)
  case Nil
  then show ?case by simp
next
  case (Cons raw rest)
  obtain r1 st1 ev1 where p: "process_line ti tf st i raw = (r1, st1, ev1)"
    by (cases "process_line ti tf st i raw")
  have v1: "visited ev1 = []" using p by (rule process_line_visited)
  show ?case
  proof (cases r1)
    case (Some b)
    with p Cons.prems have res: "r = Some b" "st' = st1" "ev = Visit i # ev1" by simp_all
    have "last_printed_line_index st1 = last_printed_line_index st"
      using p Some by (simp add: process_line_last_return)
    moreover have "visited ev = [i ..< i + 1]" using res v1 by simp
    ultimately show ?thesis using res
      by (metis One_nat_def Suc_leI length_Cons list.distinct(1) option.distinct(1) zero_less_Suc)
  next
    case None
    obtain r2 st2 ev2 where s: "scan_lines ti tf st1 (Suc i) rest = (r2, st2, ev2)"
      by (cases "scan_lines ti tf st1 (Suc i) rest")
    with p None Cons.prems have res: "r = r2" "st' = st2" "ev = Visit i # ev1 @ ev2" by simp_all
    have l1: "last_printed_line_index st1 = int i" using p None by (simp add: process_line_last)
    from Cons.IH [OF s] obtain k where k: "k \<le> length rest" "visited ev2 = [Suc i ..< Suc i + k]"
      "r2 = None \<longrightarrow> k = length rest"
      and a: "r2 = None \<and> rest \<noteq> [] \<longrightarrow> last_printed_line_index st2 = int (Suc i + length rest) - 1"
      and b: "rest = [] \<longrightarrow> st2 = st1"
      and c: "last_printed_line_index st2 = last_printed_line_index st1 \<or> int (Suc i) \<le> last_printed_line_index st2"
      by blast
    have "visited ev = [i ..< i + Suc k]"
      using res v1 k(2) by (simp add: visited_append upt_rec [of i])
    moreover have "Suc k \<le> length (raw # rest)" using k(1) by simp
    moreover have "r = None \<longrightarrow> Suc k = length (raw # rest)" using k(3) res by simp
    ultimately have first: "\<exists>k\<le>length (raw # rest). visited ev = [i ..< i + k]
        \<and> (r = None \<longrightarrow> k = length (raw # rest))" by blast
    have second: "r = None \<and> raw # rest \<noteq> [] \<longrightarrow>
        last_printed_line_index st' = int (i + length (raw # rest)) - 1"
      using a b l1 res by (cases "rest = []") auto
    have third: "last_printed_line_index st' = last_printed_line_index st \<or> int i \<le> last_printed_line_index st'"
      using c l1 res by auto
    from first second third show ?thesis by simp
  qed
qed

lemma poll_trace:
  assumes "poll ti tf st lines = (r, st', ev)"
  shows "last_printed_line_index st \<le> last_printed_line_index st'
     \<and> sorted_wrt (<) (visited ev)
     \<and> (\<forall>i\<in>set (visited ev). last_printed_line_index st < int i)
     \<and> (r = None \<longrightarrow> (\<forall>i\<in>set (visited ev). int i \<le> last_printed_line_index st'))"
proof (cases "find_solution_progress_section lines \<ge> 0")
  case False
  with assms show ?thesis by (simp add: poll_def)
next
  case True
  define first where
    "first = nat (max (find_solution_progress_section lines + 2) (last_printed_line_index st + 1))"
  have s: "scan_lines ti tf st first (drop first lines) = (r, st', ev)"
    using assms True by (simp add: poll_def first_def Let_def)
  have gt: "last_printed_line_index st < int first"
    unfolding first_def using True by (auto simp add: max_def)
  from scan_lines_trace [OF s] obtain k where k: "k \<le> length (drop first lines)"
      "visited ev = [first ..< first + k]" "r = None \<longrightarrow> k = length (drop first lines)"
    and a: "r = None \<and> drop first lines \<noteq> [] \<longrightarrow>
        last_printed_line_index st' = int (first + length (drop first lines)) - 1"
    and c: "last_printed_line_index st' = last_printed_line_index st \<or> int first \<le> last_printed_line_index st'"
    by blast
  have 1: "last_printed_line_index st \<le> last_printed_line_index st'" using c gt by auto
  have 2: "sorted_wrt (<) (visited ev)" using k(2) by simp
  have 3: "\<forall>i\<in>set (visited ev). last_printed_line_index st < int i" using k(2) gt by auto
  have 4: "r = None \<longrightarrow> (\<forall>i\<in>set (visited ev). int i \<le> last_printed_line_index st')"
  proof (intro impI ballI)
    fix i assume n: "r = None" and i: "i \<in> set (visited ev)"
    with k have "first \<le> i" "i < first + length (drop first lines)" by auto
    moreover from this have "drop first lines \<noteq> []" by auto
    ultimately show "int i \<le> last_printed_line_index st'" using a n by auto
  qed
  from 1 2 3 4 show ?thesis by blast
qed

lemma poll_again:
  assumes "poll ti tf st lines = (None, st', ev)"
  shows "poll ti tf st' lines = (None, st', [])"
proof (cases "find_solution_progress_section lines \<ge> 0")
  case False
  with assms show ?thesis by (simp add: poll_def)
next
  case True
  define first where
    "first = nat (max (find_solution_progress_section lines + 2) (last_printed_line_index st + 1))"
  define first' where
    "first' = nat (max (find_solution_progress_section lines + 2) (last_printed_line_index st' + 1))"
  have s: "scan_lines ti tf st first (drop first lines) = (None, st', ev)"
    using assms True by (simp add: poll_def first_def Let_def)
  have p': "poll ti tf st' lines = scan_lines ti tf st' first' (drop first' lines)"
    using True by (simp add: poll_def first'_def Let_def)
  show ?thesis
  proof (cases "drop first lines = []")
    case True
    with scan_lines_trace [OF s] have "st' = st" by blast
    then have "first' = first" by (simp add: first_def first'_def)
    with True p' show ?thesis by simp
  next
    case False
    with scan_lines_trace [OF s]
    have "last_printed_line_index st' = int (first + length (drop first lines)) - 1" by blast
    moreover from False have "first + length (drop first lines) = length lines" by simp
    ultimately have "last_printed_line_index st' + 1 = int (length lines)" by simp
    then have "length lines \<le> first'" unfolding first'_def by simp
    with p' show ?thesis by simp
  qed
qed

lemma monitor_loop_append:
  "monitor_loop ti tf p st (xs @ ys) =
     (case monitor_loop ti tf p st xs of
        (Some r, st', ev) \<Rightarrow> (Some r, st', ev)
      | (None, st', ev) \<Rightarrow>
          (case monitor_loop ti tf p st' ys of (r, st'', ev') \<Rightarrow> (r, st'', ev @ ev')))"
  by (induction ti tf p st xs rule: monitor_loop.induct)
    (auto split: prod.splits option.splits)

lemma monitor_loop_trace:
  "monitor_loop ti tf p st reads = (r, st', ev) \<Longrightarrow>
     last_printed_line_index st \<le> last_printed_line_index st'
     \<and> sorted_wrt (<) (visited ev)
     \<and> (\<forall>i\<in>set (visited ev). last_printed_line_index st < int i)
     \<and> (r = None \<longrightarrow> (\<forall>i\<in>set (visited ev). int i \<le> last_printed_line_index st'))"
proof (induction reads arbitrary: st r st' ev)
  case Nil
  then show ?case by simp
next
  case (Cons rd later)
  show ?case
  proof (cases rd)
    case None
    obtain r2 st2 ev2 where m: "monitor_loop ti tf p st later = (r2, st2, ev2)"
      by (cases "monitor_loop ti tf p st later")
    with Cons.prems None have "r = r2" "st' = st2" "visited ev = visited ev2"
      by (auto simp add: waiting_notice_def)
    with Cons.IH [OF m] show ?thesis by simp
  next
    case (Some lines)
    obtain r1 st1 ev1 where p1: "poll ti tf st lines = (r1, st1, ev1)"
      by (cases "poll ti tf st lines")
    note t1 = poll_trace [OF p1]
    show ?thesis
    proof (cases r1)
      case (Some b)
      with p1 Cons.prems \<open>rd = Some lines\<close> have "r = Some b" "st' = st1" "ev = ev1" by simp_all
      with t1 show ?thesis by simp
    next
      case None
      obtain r2 st2 ev2 where m: "monitor_loop ti tf p st1 later = (r2, st2, ev2)"
        by (cases "monitor_loop ti tf p st1 later")
      with p1 None Cons.prems \<open>rd = Some lines\<close>
      have res: "r = r2" "st' = st2" "visited ev = visited ev1 @ visited ev2"
        by (auto simp add: visited_append)
      note t2 = Cons.IH [OF m]
      have cross: "\<forall>x\<in>set (visited ev1). \<forall>y\<in>set (visited ev2). x < y"
      proof (intro ballI)
        fix x y assume "x \<in> set (visited ev1)" "y \<in> set (visited ev2)"
        with t1 t2 None have "int x \<le> last_printed_line_index st1" "last_printed_line_index st1 < int y"
          by blast+
        then show "x < y" by simp
      qed
      have 1: "last_printed_line_index st \<le> last_printed_line_index st'"
        using t1 t2 res by simp
      have 2: "sorted_wrt (<) (visited ev)"
        using t1 t2 cross res by (simp add: sorted_wrt_append)
      have 3: "\<forall>i\<in>set (visited ev). last_printed_line_index st < int i"
        using t1 t2 res by auto
      have 4: "r = None \<longrightarrow> (\<forall>i\<in>set (visited ev). int i \<le> last_printed_line_index st')"
        using t1 t2 res None by auto
      from 1 2 3 4 show ?thesis by blast
    qed
  qed
qed

lemma poll_completion:
  assumes anchor: "find_solution_progress_section lines = int a"
    and first: "first = nat (max (int a + 2) (last_printed_line_index st + 1))"
    and range: "first \<le> i" "i < length lines"
    and before: "scan_lines ti tf st first (take (i - first) (drop first lines)) = (None, st1, ev1)"
    and marker: "sublist ''THE ANALYSIS HAS COMPLETED SUCCESSFULLY'' (lines ! i)
      \<or> sublist ''ANALYSIS ABORTED'' (lines ! i) \<or> sublist ''ANALYSIS TERMINATED'' (lines ! i)"
  shows "poll ti tf st lines =
     (Some (sublist ''THE ANALYSIS HAS COMPLETED SUCCESSFULLY'' (lines ! i)), st1,
      ev1 @ Visit i # snd (check_completion_status (strip (lines ! i))))"
proof -
  define rest where "rest = drop first lines"
  have len: "i - first < length rest" using range by (simp add: rest_def)
  have nth: "rest ! (i - first) = lines ! i" using range by (simp add: rest_def)
  have split: "rest = take (i - first) rest @ (lines ! i) # drop (Suc (i - first)) rest"
    using id_take_nth_drop [OF len] nth by simp
  have l: "length (take (i - first) rest) = i - first" using len by simp
  obtain ev where c: "check_completion_status (strip (lines ! i)) =
      ((True, sublist ''THE ANALYSIS HAS COMPLETED SUCCESSFULLY'' (lines ! i)), ev)"
    using completion_status_raw [of "lines ! i"] marker
    by (cases "check_completion_status (strip (lines ! i))") auto
  have pl: "process_line ti tf st1 i (lines ! i) =
      (Some (sublist ''THE ANALYSIS HAS COMPLETED SUCCESSFULLY'' (lines ! i)), st1, ev)"
    using c by (rule process_line_completion)
  have "scan_lines ti tf st first rest =
      (Some (sublist ''THE ANALYSIS HAS COMPLETED SUCCESSFULLY'' (lines ! i)), st1, ev1 @ Visit i # ev)"
    apply (subst split)
    apply (subst scan_lines_append)
    using before range pl l by (simp add: rest_def)
  moreover have "poll ti tf st lines = scan_lines ti tf st first rest"
    using anchor first by (simp add: poll_def rest_def Let_def)
  ultimately show ?thesis using c by simp
qed

lemma monitor_loop_return:
  assumes "monitor_loop ti tf p st earlier = (None, st0, ev0)"
    and "poll ti tf st0 lines = (Some r, st1, ev1)"
  shows "monitor_loop ti tf p st (earlier @ Some lines # later) = (Some r, st1, ev0 @ ev1)"
  using assms by (simp add: monitor_loop_append)

lemma monitor_loop_missing:
  "monitor_loop ti tf p st (replicate n None @ later) =
     (case monitor_loop ti tf p st later of
        (r, st', ev) \<Rightarrow> (r, st', concat (replicate n [waiting_notice p, Sleep 5]) @ ev))"
  by (induction n) (auto split: prod.splits)

subsection \<open>The monitor runs the tracker on the observed samples\<close>

lemma observed_append: "observed (xs @ ys) = observed xs @ observed ys"
  by (induction xs rule: observed.induct) simp_all

lemma feed_append:
  "feed st (xs @ ys) =
     (case feed st xs of (True, st') \<Rightarrow> (True, st') | (False, st') \<Rightarrow> feed st' ys)"
  by (induction xs arbitrary: st) (auto split: prod.splits bool.splits)

lemma track_ke_cong:
  assumes "tracker_of st1 = tracker_of st2"
  shows "fst (track_ke st1 ke) = fst (track_ke st2 ke)
     \<and> tracker_of (fst (snd (track_ke st1 ke))) = tracker_of (fst (snd (track_ke st2 ke)))"
  using assms
  by (auto simp add: tracker_of_def track_ke_def Let_def split: prod.splits)

lemma feed_cong:
  "tracker_of st1 = tracker_of st2 \<Longrightarrow>
     fst (feed st1 kes) = fst (feed st2 kes)
     \<and> tracker_of (snd (feed st1 kes)) = tracker_of (snd (feed st2 kes))"
proof (induction kes arbitrary: st1 st2)
  case Nil
  then show ?case by simp
next
  case (Cons ke kes)
  obtain b1 s1 e1 where t1: "track_ke st1 ke = (b1, s1, e1)" by (cases "track_ke st1 ke")
  obtain b2 s2 e2 where t2: "track_ke st2 ke = (b2, s2, e2)" by (cases "track_ke st2 ke")
  from track_ke_cong [OF Cons.prems, of ke] t1 t2
  have eq: "b1 = b2" "tracker_of s1 = tracker_of s2" by simp_all
  show ?case
  proof (cases b1)
    case True
    with eq t1 t2 show ?thesis by simp
  next
    case False
    with eq t1 t2 Cons.IH [OF eq(2)] show ?thesis by simp
  qed
qed

lemma track_ke_observed: "track_ke st ke = (b, st', ev) \<Longrightarrow> observed ev = []"
  by (auto simp add: track_ke_def check_ke_minimum_def Let_def split: option.splits if_splits)

lemma check_completion_status_observed: "observed (snd (check_completion_status line)) = []"
  by (simp add: check_completion_status_def)

lemma process_increment_feed:
  assumes "process_increment st d = (r, st', ev)"
  shows "observed ev = [kinetic_energy d]
     \<and> (fst (track_ke st (kinetic_energy d)) \<longleftrightarrow> r = Some True)
     \<and> (\<not> fst (track_ke st (kinetic_energy d)) \<longleftrightarrow> r = None)
     \<and> tracker_of st' = tracker_of (fst (snd (track_ke st (kinetic_energy d))))"
proof -
  define st1 where "st1 = (if \<not> header_printed st then st\<lparr>header_printed := True\<rparr> else st)"
  have same: "tracker_of st1 = tracker_of st" by (simp add: st1_def tracker_of_def)
  obtain b st2 ev2 where t: "track_ke st1 (kinetic_energy d) = (b, st2, ev2)"
    by (cases "track_ke st1 (kinetic_energy d)")
  have o: "observed ev2 = []" using t by (rule track_ke_observed)
  from assms t have res: "r = (if b then Some True else None)" "st' = st2"
    "ev = (if \<not> header_printed st then print_header else []) @ print_increment_data d @ ev2"
    unfolding process_increment_def Let_def st1_def [symmetric]
    by (auto split: bool.splits)
  from track_ke_cong [OF same, of "kinetic_energy d"] t
  have "fst (track_ke st (kinetic_energy d)) = b"
    "tracker_of (fst (snd (track_ke st (kinetic_energy d)))) = tracker_of st2" by simp_all
  with res o show ?thesis
    by (simp add: observed_append print_header_def print_increment_data_def)
qed

lemma follows_silent:
  "observed ev = [] \<Longrightarrow> tracker_of st' = tracker_of st \<Longrightarrow> follows st ev r st'"
  by (simp add: follows_def)

lemma follows_increment:
  assumes "observed ev = [ke]"
    and "fst (track_ke st ke) \<longrightarrow> r = Some True"
    and "tracker_of st' = tracker_of (fst (snd (track_ke st ke)))"
  shows "follows st ev r st'"
  using assms by (cases "track_ke st ke") (auto simp add: follows_def split: bool.splits)

lemma process_line_follows:
  assumes "process_line ti tf st i raw = (r, st', ev)"
  shows "follows st ev r st'"
proof -
  define line where "line = strip raw"
  obtain hs sc evc where c: "check_completion_status line = ((hs, sc), evc)"
    by (cases "check_completion_status line") auto
  have oc: "observed evc = []" using check_completion_status_observed [of line] c by simp
  show ?thesis
  proof (cases "\<not> hs \<and> \<not> is_header_line line \<and> is_increment_data_line line
      \<and> 7 \<le> length (split line) \<and> \<not> isl (parse_increment_data ti tf (split line))")
    case True
    then obtain d where p: "parse_increment_data ti tf (split line) = Inr d"
      by (cases "parse_increment_data ti tf (split line)") auto
    obtain r1 st1 ev1 where pi: "process_increment st d = (r1, st1, ev1)"
      by (cases "process_increment st d")
    note f = process_increment_feed [OF pi]
    from assms True p pi c have res: "r = r1" "ev = evc @ ev1"
      "st' = (if r1 = None then st1\<lparr>last_printed_line_index := int i\<rparr> else st1)"
      unfolding process_line_def Let_def line_def [symmetric]
      by (auto split: option.splits)
    have "observed ev = [kinetic_energy d]" using res oc f by (simp add: observed_append)
    moreover have "fst (track_ke st (kinetic_energy d)) \<longrightarrow> r = Some True" using f res by simp
    moreover have "tracker_of st' = tracker_of (fst (snd (track_ke st (kinetic_energy d))))"
      using f res by (simp add: tracker_of_def)
    ultimately show ?thesis by (rule follows_increment)
  next
    case False
    with assms c have "observed ev = [] \<and> tracker_of st' = tracker_of st"
      unfolding process_line_def Let_def line_def [symmetric]
      using oc
      by (auto simp add: observed_append tracker_of_def
          split: if_splits sum.splits py_error.splits bool.splits)
    then show ?thesis by (simp add: follows_silent)
  qed
qed

lemma follows_observed:
  "observed ev = observed ev' \<Longrightarrow> follows st ev r st' = follows st ev' r st'"
  by (simp add: follows_def)

lemma follows_append:
  assumes 1: "follows st ev1 None st1" and 2: "follows st1 ev2 r st2"
  shows "follows st (ev1 @ ev2) r st2"
proof -
  define o1 where "o1 = observed ev1"
  define o2 where "o2 = observed ev2"
  from 1 have n1: "\<not> fst (feed st o1)" and b1: "\<not> fst (feed st (butlast o1))"
    and t1: "tracker_of (snd (feed st o1)) = tracker_of st1"
    by (simp_all add: follows_def o1_def)
  from 2 have b2: "\<not> fst (feed st1 (butlast o2))"
    and t2: "tracker_of (snd (feed st1 o2)) = tracker_of st2"
    and s2: "fst (feed st1 o2) \<longrightarrow> r = Some True"
    by (simp_all add: follows_def o2_def)
  have app: "feed st (o1 @ xs) = feed (snd (feed st o1)) xs" for xs
    using n1 by (cases "feed st o1") (simp add: feed_append)
  note c = feed_cong [OF t1]
  have "\<not> fst (feed st (butlast (o1 @ o2)))"
  proof (cases "o2 = []")
    case True
    with b1 show ?thesis by simp
  next
    case False
    then have "butlast (o1 @ o2) = o1 @ butlast o2" by (simp add: butlast_append)
    with app [of "butlast o2"] c [of "butlast o2"] b2 show ?thesis by simp
  qed
  moreover have "tracker_of (snd (feed st (o1 @ o2))) = tracker_of st2"
    using app [of o2] c [of o2] t2 by simp
  moreover have "fst (feed st (o1 @ o2)) \<longrightarrow> r = Some True"
    using app [of o2] c [of o2] s2 by simp
  ultimately show ?thesis
    by (simp add: follows_def observed_append o1_def o2_def)
qed

lemma scan_lines_follows:
  "scan_lines ti tf st i ls = (r, st', ev) \<Longrightarrow> follows st ev r st'"
proof (induction ls arbitrary: st i r st' ev)
  case Nil
  then show ?case by (simp add: follows_def)
next
  case (Cons raw rest)
  obtain r1 st1 ev1 where p: "process_line ti tf st i raw = (r1, st1, ev1)"
    by (cases "process_line ti tf st i raw")
  note f1 = process_line_follows [OF p]
  show ?case
  proof (cases r1)
    case (Some b)
    with p Cons.prems have "r = Some b" "st' = st1" "ev = Visit i # ev1" by simp_all
    with f1 Some show ?thesis by (simp add: follows_observed [of "Visit i # ev1" ev1])
  next
    case None
    obtain r2 st2 ev2 where s: "scan_lines ti tf st1 (Suc i) rest = (r2, st2, ev2)"
      by (cases "scan_lines ti tf st1 (Suc i) rest")
    with p None Cons.prems have res: "r = r2" "st' = st2" "ev = Visit i # ev1 @ ev2" by simp_all
    from f1 None Cons.IH [OF s] have "follows st (ev1 @ ev2) r2 st2" by (simp add: follows_append)
    with res show ?thesis by (simp add: follows_observed [of "Visit i # ev1 @ ev2" "ev1 @ ev2"])
  qed
qed

lemma poll_follows:
  "poll ti tf st lines = (r, st', ev) \<Longrightarrow> follows st ev r st'"
  by (auto simp add: poll_def Let_def follows_def split: if_splits dest: scan_lines_follows)

lemma monitor_loop_follows:
  "monitor_loop ti tf p st reads = (r, st', ev) \<Longrightarrow> follows st ev r st'"
proof (induction reads arbitrary: st r st' ev)
  case Nil
  then show ?case by (simp add: follows_def)
next
  case (Cons rd later)
  show ?case
  proof (cases rd)
    case None
    obtain r2 st2 ev2 where m: "monitor_loop ti tf p st later = (r2, st2, ev2)"
      by (cases "monitor_loop ti tf p st later")
    with Cons.prems None have "r = r2" "st' = st2" "observed ev = observed ev2"
      by (auto simp add: waiting_notice_def)
    with Cons.IH [OF m] show ?thesis by (simp add: follows_observed [of ev ev2])
  next
    case (Some lines)
    obtain r1 st1 ev1 where p1: "poll ti tf st lines = (r1, st1, ev1)"
      by (cases "poll ti tf st lines")
    note f1 = poll_follows [OF p1]
    show ?thesis
    proof (cases r1)
      case (Some b)
      with p1 Cons.prems \<open>rd = Some lines\<close> have "r = Some b" "st' = st1" "ev = ev1" by simp_all
      with f1 Some show ?thesis by simp
    next
      case None
      obtain r2 st2 ev2 where m: "monitor_loop ti tf p st1 later = (r2, st2, ev2)"
        by (cases "monitor_loop ti tf p st1 later")
      with p1 None Cons.prems \<open>rd = Some lines\<close>
      have res: "r = r2" "st' = st2" "observed ev = observed (ev1 @ ev2)"
        by (auto simp add: observed_append)
      from f1 None Cons.IH [OF m] have "follows st (ev1 @ ev2) r2 st2" by (simp add: follows_append)
      with res show ?thesis by (simp add: follows_observed [of ev "ev1 @ ev2"])
    qed
  qed
qed

lemma session_tracker:
  assumes "monitor_loop ti tf p initial_state reads = (r, st', ev)"
  shows "\<not> stop_signaled (butlast (observed ev))
     \<and> tracker_of st' = tracker_of (tracker_after (observed ev))
     \<and> (stop_signaled (observed ev) \<longrightarrow> r = Some True)"
  using monitor_loop_follows [OF assms]
  by (simp add: follows_def stop_signaled_def tracker_after_def)

lemma no_anchor_keeps_polling:
  "find_solution_progress_section lines < 0 \<Longrightarrow>
     monitor_loop ti tf p st (replicate n (Some lines)) = (None, st, replicate n (Sleep 5))"
  by (induction n) (simp_all add: poll_def)

section \<open>Claims about the monitor\<close>

text \<open>
  C1, as stated, fails: the completion check runs only inside the scan of the progress
  table. A file that holds the success marker and no progress anchor, and a file whose
  success marker stands before the anchor, are read three times and the monitor is still
  polling.
\<close>

theorem success_marker_outside_progress_table_unseen:
  "fst (monitor_job sample_int sample_float ''job.sta''
          (replicate 3 (Some [''THE ANALYSIS HAS COMPLETED SUCCESSFULLY'']))) = None
   \<and> fst (monitor_job sample_int sample_float ''job.sta''
          (replicate 3 (Some [''THE ANALYSIS HAS COMPLETED SUCCESSFULLY'', ''SOLUTION PROGRESS'',
             [], ''STEP 1  ORIGIN 0.0000'']))) = None"
  by code_simp

text \<open>
  C1, amended: when the file of a read holds the progress anchor, and a line at least two
  lines after the first anchor and after the last consumed line holds a completion marker,
  and the scan of the lines before it in that read did not end the session, then
  \<open>monitor_job\<close> returns upon that line: true when the line holds the success marker, false
  otherwise. The session is still polling after the \<open>earlier\<close> reads, and \<open>st\<close> is its state
  then.
\<close>

theorem completion_marker_in_progress_table:
  assumes polling: "fst (monitor_loop ti tf p initial_state earlier) = None"
    and st: "st = fst (snd (monitor_loop ti tf p initial_state earlier))"
    and anchor: "find_solution_progress_section lines = int a"
    and first: "first = nat (max (int a + 2) (last_printed_line_index st + 1))"
    and range: "first \<le> i" "i < length lines"
    and before: "fst (scan_lines ti tf st first (take (i - first) (drop first lines))) = None"
    and marker: "sublist ''THE ANALYSIS HAS COMPLETED SUCCESSFULLY'' (lines ! i)
      \<or> sublist ''ANALYSIS ABORTED'' (lines ! i) \<or> sublist ''ANALYSIS TERMINATED'' (lines ! i)"
  shows "fst (monitor_job ti tf p (earlier @ Some lines # later)) =
     Some (sublist ''THE ANALYSIS HAS COMPLETED SUCCESSFULLY'' (lines ! i))"
proof -
  obtain ev0 where m: "monitor_loop ti tf p initial_state earlier = (None, st, ev0)"
    using polling st by (cases "monitor_loop ti tf p initial_state earlier") simp
  obtain st1 ev1 where s: "scan_lines ti tf st first (take (i - first) (drop first lines)) = (None, st1, ev1)"
    using before by (cases "scan_lines ti tf st first (take (i - first) (drop first lines))") simp
  note poll_completion [OF anchor first range s marker]
  from monitor_loop_return [OF m this, of later] show ?thesis
    by (simp add: monitor_job_def)
qed

theorem completion_marker_in_progress_table_witness:
  "fst (monitor_loop sample_int sample_float ''job.sta'' initial_state [None, Some (take 5 sample_file)]) = None
   \<and> find_solution_progress_section sample_file = int 0
   \<and> 5 = nat (max (int 0 + 2) (last_printed_line_index (fst (snd (monitor_loop sample_int
        sample_float ''job.sta'' initial_state [None, Some (take 5 sample_file)]))) + 1))
   \<and> (5::nat) \<le> 6 \<and> 6 < length sample_file
   \<and> fst (scan_lines sample_int sample_float (fst (snd (monitor_loop sample_int sample_float
        ''job.sta'' initial_state [None, Some (take 5 sample_file)]))) 5
        (take (6 - 5) (drop 5 sample_file))) = None
   \<and> sublist ''THE ANALYSIS HAS COMPLETED SUCCESSFULLY'' (sample_file ! 6)
   \<and> fst (monitor_job sample_int sample_float ''job.sta''
        ([None, Some (take 5 sample_file)] @ Some sample_file # [])) = Some True"
proof -
  let ?earlier = "[None, Some (take 5 sample_file)]"
  let ?st = "fst (snd (monitor_loop sample_int sample_float ''job.sta'' initial_state ?earlier))"
  have 1: "fst (monitor_loop sample_int sample_float ''job.sta'' initial_state ?earlier) = None"
    by code_simp
  have 2: "find_solution_progress_section sample_file = int 0" by code_simp
  have 3: "5 = nat (max (int 0 + 2) (last_printed_line_index ?st + 1))" by code_simp
  have 4: "(5::nat) \<le> 6" by simp
  have 5: "6 < length sample_file" by code_simp
  have 6: "fst (scan_lines sample_int sample_float ?st 5 (take (6 - 5) (drop 5 sample_file))) = None"
    by code_simp
  have 7: "sublist ''THE ANALYSIS HAS COMPLETED SUCCESSFULLY'' (sample_file ! 6)" by code_simp
  have 8: "sublist ''THE ANALYSIS HAS COMPLETED SUCCESSFULLY'' (sample_file ! 6)
      \<or> sublist ''ANALYSIS ABORTED'' (sample_file ! 6) \<or> sublist ''ANALYSIS TERMINATED'' (sample_file ! 6)"
    using 7 by (rule disjI1)
  have "fst (monitor_job sample_int sample_float ''job.sta'' (?earlier @ Some sample_file # [])) =
      Some (sublist ''THE ANALYSIS HAS COMPLETED SUCCESSFULLY'' (sample_file ! 6))"
    by (rule completion_marker_in_progress_table [OF 1 refl 2 3 4 5 6 8])
  with 7 have 9: "fst (monitor_job sample_int sample_float ''job.sta''
      (?earlier @ Some sample_file # [])) = Some True" by simp
  from 1 2 3 4 5 6 7 9 show ?thesis by (intro conjI)
qed

text \<open>
  C7: \<open>last_printed_line_index\<close> starts at -1; over any reads from any state of a session
  it does not decrease, the line indices on which the loop body runs are strictly
  increasing and all above the index the state had before, so none is processed twice; and
  a second poll of the same file runs the loop body on no line and leaves the state as it is.
\<close>

theorem consumption_monotone_and_idempotent:
  "last_printed_line_index initial_state = - 1
   \<and> (monitor_loop ti tf p st reads = (r, st', ev) \<longrightarrow>
        last_printed_line_index st \<le> last_printed_line_index st'
        \<and> sorted_wrt (<) (visited ev)
        \<and> (\<forall>i\<in>set (visited ev). last_printed_line_index st < int i))
   \<and> (poll ti tf st lines = (None, st1, ev1) \<longrightarrow> poll ti tf st1 lines = (None, st1, []))"
proof (intro conjI impI)
  show "last_printed_line_index initial_state = - 1" by (simp add: initial_state_def)
next
  assume "monitor_loop ti tf p st reads = (r, st', ev)"
  note t = monitor_loop_trace [OF this]
  from t show "last_printed_line_index st \<le> last_printed_line_index st'" by blast
  from t show "sorted_wrt (<) (visited ev)" by blast
  from t show "\<forall>i\<in>set (visited ev). last_printed_line_index st < int i" by blast
next
  assume "poll ti tf st lines = (None, st1, ev1)"
  then show "poll ti tf st1 lines = (None, st1, [])" by (rule poll_again)
qed

theorem consumption_monotone_and_idempotent_witness:
  "fst (monitor_loop sample_int sample_float ''job.sta'' initial_state
      [None, Some (take 5 sample_file), Some (take 5 sample_file), Some (take 6 sample_file)]) = None
   \<and> visited (snd (snd (monitor_loop sample_int sample_float ''job.sta'' initial_state
      [None, Some (take 5 sample_file), Some (take 5 sample_file), Some (take 6 sample_file)])))
      = [2, 3, 4, 5]
   \<and> last_printed_line_index initial_state \<le> last_printed_line_index (fst (snd (monitor_loop
      sample_int sample_float ''job.sta'' initial_state
      [None, Some (take 5 sample_file), Some (take 5 sample_file), Some (take 6 sample_file)])))
   \<and> sorted_wrt (<) (visited (snd (snd (monitor_loop sample_int sample_float ''job.sta'' initial_state
      [None, Some (take 5 sample_file), Some (take 5 sample_file), Some (take 6 sample_file)]))))
   \<and> fst (poll sample_int sample_float initial_state (take 5 sample_file)) = None
   \<and> poll sample_int sample_float
        (fst (snd (poll sample_int sample_float initial_state (take 5 sample_file))))
        (take 5 sample_file)
      = (None, fst (snd (poll sample_int sample_float initial_state (take 5 sample_file))), [])"
proof -
  let ?X = "monitor_loop sample_int sample_float ''job.sta'' initial_state
      [None, Some (take 5 sample_file), Some (take 5 sample_file), Some (take 6 sample_file)]"
  let ?Y = "poll sample_int sample_float initial_state (take 5 sample_file)"
  have 1: "fst ?X = None" by code_simp
  have 2: "visited (snd (snd ?X)) = [2, 3, 4, 5]" by code_simp
  have x: "?X = (fst ?X, fst (snd ?X), snd (snd ?X))" by simp
  have 3: "fst ?Y = None" by code_simp
  then have y: "?Y = (None, fst (snd ?Y), snd (snd ?Y))" by (simp add: prod_eq_iff)
  note t = consumption_monotone_and_idempotent [of sample_int sample_float "''job.sta''"
      initial_state _ "fst ?X" "fst (snd ?X)" "snd (snd ?X)" _ "fst (snd ?Y)" "snd (snd ?Y)"]
  from t x have 4: "last_printed_line_index initial_state \<le> last_printed_line_index (fst (snd ?X))"
    by blast
  from t x have 5: "sorted_wrt (<) (visited (snd (snd ?X)))" by blast
  from t y have 6: "poll sample_int sample_float (fst (snd ?Y)) (take 5 sample_file)
      = (None, fst (snd ?Y), [])" by blast
  from 1 2 4 5 3 6 show ?thesis by (intro conjI)
qed

text \<open>
  C8, as stated, fails in its second part: the file is missing twice and then holds the
  success marker, without a progress anchor; after three reads of it the monitor is still
  polling.
\<close>

theorem missing_then_bare_success_marker_keeps_polling:
  "monitor_job sample_int sample_float ''job.sta''
     ([None, None] @ replicate 3 (Some [''THE ANALYSIS HAS COMPLETED SUCCESSFULLY'']))
   = (None, [Sleep 5, waiting_notice ''job.sta'', Sleep 5, waiting_notice ''job.sta'', Sleep 5,
        Sleep 5, Sleep 5, Sleep 5])"
  by code_simp

text \<open>
  C8, amended: while the file is missing the monitor neither returns nor raises, and each
  failed read gives one waiting notice and one sleep of 5 seconds. When the file, missing
  for \<open>n\<close> reads, then holds the progress anchor and, at least two lines after it, a line
  with the success marker that the scan reaches, \<open>monitor_job\<close> returns true; its trace is
  the first sleep, \<open>n\<close> times the notice and the sleep, and the events of that one poll.
\<close>

theorem missing_file_is_retried:
  "monitor_job ti tf p (replicate n None) =
     (None, Sleep 5 # concat (replicate n [waiting_notice p, Sleep 5]))
   \<and> (find_solution_progress_section lines = int a \<and> a + 2 \<le> i \<and> i < length lines
        \<and> fst (scan_lines ti tf initial_state (a + 2) (take (i - (a + 2)) (drop (a + 2) lines))) = None
        \<and> sublist ''THE ANALYSIS HAS COMPLETED SUCCESSFULLY'' (lines ! i)
      \<longrightarrow> monitor_job ti tf p (replicate n None @ Some lines # later) =
        (Some True, Sleep 5 # concat (replicate n [waiting_notice p, Sleep 5])
           @ snd (snd (poll ti tf initial_state lines))))"
proof (intro conjI impI)
  show "monitor_job ti tf p (replicate n None) =
      (None, Sleep 5 # concat (replicate n [waiting_notice p, Sleep 5]))"
    using monitor_loop_missing [of ti tf p initial_state n "[]"]
    by (simp add: monitor_job_def)
next
  assume h: "find_solution_progress_section lines = int a \<and> a + 2 \<le> i \<and> i < length lines
      \<and> fst (scan_lines ti tf initial_state (a + 2) (take (i - (a + 2)) (drop (a + 2) lines))) = None
      \<and> sublist ''THE ANALYSIS HAS COMPLETED SUCCESSFULLY'' (lines ! i)"
  then obtain st1 ev1 where s: "scan_lines ti tf initial_state (a + 2)
      (take (i - (a + 2)) (drop (a + 2) lines)) = (None, st1, ev1)"
    by (cases "scan_lines ti tf initial_state (a + 2) (take (i - (a + 2)) (drop (a + 2) lines))") simp
  have f: "a + 2 = nat (max (int a + 2) (last_printed_line_index initial_state + 1))"
    by (simp add: initial_state_def)
  from h have "poll ti tf initial_state lines = (Some True, st1,
      ev1 @ Visit i # snd (check_completion_status (strip (lines ! i))))"
    using poll_completion [of lines a "a + 2" initial_state i ti tf st1 ev1] s f by simp
  then show "monitor_job ti tf p (replicate n None @ Some lines # later) =
      (Some True, Sleep 5 # concat (replicate n [waiting_notice p, Sleep 5])
         @ snd (snd (poll ti tf initial_state lines)))"
    using monitor_loop_missing [of ti tf p initial_state n "Some lines # later"]
    by (simp add: monitor_job_def)
qed

theorem missing_file_is_retried_witness:
  "find_solution_progress_section sample_file = int 0 \<and> (0::nat) + 2 \<le> 6 \<and> 6 < length sample_file
   \<and> fst (scan_lines sample_int sample_float initial_state (0 + 2)
        (take (6 - (0 + 2)) (drop (0 + 2) sample_file))) = None
   \<and> sublist ''THE ANALYSIS HAS COMPLETED SUCCESSFULLY'' (sample_file ! 6)
   \<and> monitor_job sample_int sample_float ''job.sta'' (replicate 2 None @ Some sample_file # []) =
        (Some True, Sleep 5 # concat (replicate 2 [waiting_notice ''job.sta'', Sleep 5])
           @ snd (snd (poll sample_int sample_float initial_state sample_file)))"
proof -
  have h: "find_solution_progress_section sample_file = int 0 \<and> (0::nat) + 2 \<le> 6
      \<and> 6 < length sample_file
      \<and> fst (scan_lines sample_int sample_float initial_state (0 + 2)
           (take (6 - (0 + 2)) (drop (0 + 2) sample_file))) = None
      \<and> sublist ''THE ANALYSIS HAS COMPLETED SUCCESSFULLY'' (sample_file ! 6)"
    by code_simp
  from missing_file_is_retried [THEN conjunct2, rule_format, OF h]
  have "monitor_job sample_int sample_float ''job.sta'' (replicate 2 None @ Some sample_file # []) =
        (Some True, Sleep 5 # concat (replicate 2 [waiting_notice ''job.sta'', Sleep 5])
           @ snd (snd (poll sample_int sample_float initial_state sample_file)))" .
  with h show ?thesis by blast
qed

text \<open>
  C2, as stated, fails: an increment-shaped line of exactly seven tokens raises
  \<^verbatim>\<open>IndexError\<close> on \<^verbatim>\<open>values[7]\<close>, and one of eight tokens with a token that is not a number
  raises \<^verbatim>\<open>ValueError\<close>; neither is parsed into a record.
\<close>

theorem seven_tokens_or_bad_number_not_parsed:
  "is_increment_data_line ''5 1.0E-3 1.0E-3 00:00:01 1.0E-7 1 8.0E+0''
   \<and> length (split ''5 1.0E-3 1.0E-3 00:00:01 1.0E-7 1 8.0E+0'') = 7
   \<and> parse_increment_data sample_int sample_float
        (split ''5 1.0E-3 1.0E-3 00:00:01 1.0E-7 1 8.0E+0'') = Inl IndexError
   \<and> is_increment_data_line ''5 1.0E-3 1.0E-3 00:00:01 1.0E-7 1 abc 1.0E+1''
   \<and> length (split ''5 1.0E-3 1.0E-3 00:00:01 1.0E-7 1 abc 1.0E+1'') = 8
   \<and> parse_increment_data sample_int sample_float
        (split ''5 1.0E-3 1.0E-3 00:00:01 1.0E-7 1 abc 1.0E+1'') = Inl ValueError"
  by code_simp

text \<open>
  C2, amended: the tokens of a line that passed the guard of seven tokens are parsed into
  the record \<open>d\<close> exactly when there are at least eight of them and the conversions succeed
  with token 0 as \<open>increment\<close>, 1 as \<open>step_time\<close>, 2 as \<open>total_time\<close>, 3 (kept as a string) as
  \<open>wall_time\<close>, 4 as \<open>stable_inc\<close>, 6 as \<open>kinetic_energy\<close> and 7 as \<open>total_energy\<close>; token 5 is
  not read.
\<close>

theorem parse_increment_data_positional:
  "7 \<le> length values \<and> parse_increment_data ti tf values = Inr d \<longleftrightarrow>
     8 \<le> length values
     \<and> ti (values ! 0) = Some (increment d)
     \<and> tf (values ! 1) = Some (step_time d)
     \<and> tf (values ! 2) = Some (total_time d)
     \<and> values ! 3 = wall_time d
     \<and> tf (values ! 4) = Some (stable_inc d)
     \<and> tf (values ! 6) = Some (kinetic_energy d)
     \<and> tf (values ! 7) = Some (total_energy d)"
  by (auto simp add: parse_increment_data_def convert_def item_def
      split: sum.splits option.splits if_splits)

theorem parse_increment_data_positional_witness:
  "7 \<le> length (split ''5 1.0E-3 2.0E-3 00:00:01 1.0E-7 1 8.0E+0 1.0E+1'')
   \<and> parse_increment_data sample_int sample_float
        (split ''5 1.0E-3 2.0E-3 00:00:01 1.0E-7 1 8.0E+0 1.0E+1'')
      = Inr \<lparr>increment = 5, step_time = Fin (1 / 1000), total_time = Fin (2 / 1000),
          wall_time = ''00:00:01'', stable_inc = Fin (1 / 10000000), kinetic_energy = Fin 8,
          total_energy = Fin 10\<rparr>"
proof -
  let ?toks = "split ''5 1.0E-3 2.0E-3 00:00:01 1.0E-7 1 8.0E+0 1.0E+1''"
  let ?d = "\<lparr>increment = 5, step_time = Fin (1 / 1000), total_time = Fin (2 / 1000),
      wall_time = ''00:00:01'', stable_inc = Fin (1 / 10000000), kinetic_energy = Fin 8,
      total_energy = Fin 10\<rparr>"
  have "8 \<le> length ?toks
     \<and> sample_int (?toks ! 0) = Some (increment ?d)
     \<and> sample_float (?toks ! 1) = Some (step_time ?d)
     \<and> sample_float (?toks ! 2) = Some (total_time ?d)
     \<and> ?toks ! 3 = wall_time ?d
     \<and> sample_float (?toks ! 4) = Some (stable_inc ?d)
     \<and> sample_float (?toks ! 6) = Some (kinetic_energy ?d)
     \<and> sample_float (?toks ! 7) = Some (total_energy ?d)"
    by code_simp
  then show ?thesis
    by (rule parse_increment_data_positional [of ?toks sample_int sample_float ?d, THEN iffD2])
qed

text \<open>
  An increment-shaped line of at least seven tokens whose parse fails is emitted as it is
  (stripped), and the loop goes on; one whose parse succeeds is emitted as its record.
\<close>

lemma header_not_increment: "is_increment_data_line line \<Longrightarrow> \<not> is_header_line line"
  by (cases line) (auto simp add: is_increment_data_line_def is_header_line_def isdigit_def)

lemma malformed_increment_line_emitted:
  assumes "is_increment_data_line (strip raw)"
    and "fst (check_completion_status (strip raw)) = (False, False)"
    and "7 \<le> length (split (strip raw))"
    and "parse_increment_data ti tf (split (strip raw)) = Inl e"
  shows "process_line ti tf st i raw =
     (None, st\<lparr>last_printed_line_index := int i\<rparr>, [LogLine (strip raw)])"
proof -
  have ne: "strip raw \<noteq> []" using assms(1) by (auto simp add: is_increment_data_line_def)
  have "snd (check_completion_status (strip raw)) = []"
    using assms(2) by (auto simp add: check_completion_status_def split: if_splits)
  with assms(2) have c: "check_completion_status (strip raw) = ((False, False), [])"
    by (simp add: prod_eq_iff)
  show ?thesis
    using assms(1,3,4) header_not_increment [OF assms(1)] ne c
    by (cases e) (simp_all add: process_line_def)
qed

lemma parsed_increment_line_recorded:
  assumes "is_increment_data_line (strip raw)"
    and "fst (check_completion_status (strip raw)) = (False, False)"
    and "7 \<le> length (split (strip raw))"
    and "parse_increment_data ti tf (split (strip raw)) = Inr d"
  shows "LogIncrement d \<in> set (snd (snd (process_line ti tf st i raw)))"
proof -
  have "snd (check_completion_status (strip raw)) = []"
    using assms(2) by (auto simp add: check_completion_status_def split: if_splits)
  with assms(2) have c: "check_completion_status (strip raw) = ((False, False), [])"
    by (simp add: prod_eq_iff)
  obtain r1 st1 ev1 where p: "process_increment st d = (r1, st1, ev1)"
    by (cases "process_increment st d")
  then have "LogIncrement d \<in> set ev1"
    by (auto simp add: process_increment_def Let_def print_increment_data_def
        split: prod.splits bool.splits)
  then show ?thesis
    using assms(1,3,4) header_not_increment [OF assms(1)] c p
    by (cases r1) (simp_all add: process_line_def)
qed

text \<open>
  C3: the code at an increment-shaped line of fewer than seven tokens. The line at index 2
  is visited and consumed, and nothing is emitted for it, whereas the line at index 3, of
  seven tokens, is emitted as it is.
\<close>

theorem short_increment_line_not_emitted:
  "is_increment_data_line ''5 1.0E+1 1.0E-7''
   \<and> length (split ''5 1.0E+1 1.0E-7'') = 3
   \<and> poll sample_int sample_float initial_state
        [''SOLUTION PROGRESS'', [], ''5 1.0E+1 1.0E-7'',
         ''5 1.0E-3 1.0E-3 00:00:01 1.0E-7 1 8.0E+0'', ''note'']
      = (None, initial_state\<lparr>last_printed_line_index := 4\<rparr>,
         [Visit 2, Visit 3, LogLine ''5 1.0E-3 1.0E-3 00:00:01 1.0E-7 1 8.0E+0'',
          Visit 4, LogLine ''note''])"
  by code_simp

section \<open>Claims about the session\<close>

text \<open>
  C4, as stated, fails. The first sample only seeds \<open>previous_ke\<close> and is never compared
  with the minimum: after one read of a file whose first two records have the kinetic
  energies 6 and 8, the minimum is 8, which is not \<^verbatim>\<open><=\<close> the first sample observed. And
  every comparison with NaN is false: after one read of a file whose records have the
  kinetic energies 8, 6 and NaN, the minimum is 6, which is not \<^verbatim>\<open><=\<close> the third sample.
\<close>

theorem minimum_above_first_sample:
  "min_ke (fst (snd (monitor_loop sample_int sample_float ''job.sta'' initial_state
      [Some (take 6 sample_rebound_file)]))) = Some (Fin 8)
   \<and> observed (snd (snd (monitor_loop sample_int sample_float ''job.sta'' initial_state
      [Some (take 6 sample_rebound_file)]))) = [Fin 6, Fin 8]
   \<and> \<not> fle (Fin 8) (Fin 6)
   \<and> min_ke (fst (snd (monitor_loop sample_int sample_float ''job.sta'' initial_state
      [Some sample_nan_file]))) = Some (Fin 6)
   \<and> observed (snd (snd (monitor_loop sample_int sample_float ''job.sta'' initial_state
      [Some sample_nan_file]))) = [Fin 8, Fin 6, NaN]
   \<and> \<not> fle (Fin 6) NaN"
  by code_simp

text \<open>
  C4, amended: at every point of a monitoring session (after any reads, in the state
  \<open>st'\<close> and with the trace \<open>ev\<close>), when no kinetic energy observed from the second sample
  on is NaN, the minimum, when present, is \<^verbatim>\<open><=\<close> every kinetic energy observed so far from
  the second sample on.
\<close>

theorem minimum_below_later_samples:
  assumes "monitor_loop ti tf p initial_state reads = (r, st', ev)"
    and "min_ke st' = Some m"
    and "NaN \<notin> set (tl (observed ev))"
    and "ke \<in> set (tl (observed ev))"
  shows "fle m ke"
proof -
  from session_tracker [OF assms(1)]
  have ns: "\<not> stop_signaled (butlast (observed ev))"
    and "tracker_of st' = tracker_of (tracker_after (observed ev))" by blast+
  then have "min_ke (tracker_after (observed ev)) = Some m"
    using assms(2) by (simp add: tracker_of_def)
  moreover from assms(4) have "2 \<le> length (observed ev)"
    by (cases "observed ev") (auto simp add: Suc_le_eq)
  ultimately have "least_of m (tl (observed ev))"
    using min_ke_after [OF assms(3) ns] by auto
  with assms(4) show ?thesis by (simp add: least_of_def)
qed

theorem minimum_below_later_samples_witness:
  "min_ke (fst (snd (monitor_loop sample_int sample_float ''job.sta'' initial_state
      [None, Some (take 6 sample_rebound_file), Some sample_rebound_file]))) = Some (Fin 7)
   \<and> observed (snd (snd (monitor_loop sample_int sample_float ''job.sta'' initial_state
      [None, Some (take 6 sample_rebound_file), Some sample_rebound_file])))
      = [Fin 6, Fin 8, Fin 7, Fin 9]
   \<and> fle (Fin 7) (Fin 9)"
proof -
  let ?X = "monitor_loop sample_int sample_float ''job.sta'' initial_state
      [None, Some (take 6 sample_rebound_file), Some sample_rebound_file]"
  have x: "?X = (fst ?X, fst (snd ?X), snd (snd ?X))" by simp
  have a: "min_ke (fst (snd ?X)) = Some (Fin 7)" by code_simp
  have b: "observed (snd (snd ?X)) = [Fin 6, Fin 8, Fin 7, Fin 9]" by code_simp
  have n: "NaN \<notin> set (tl (observed (snd (snd ?X))))" unfolding b by simp
  have c: "Fin 9 \<in> set (tl (observed (snd (snd ?X))))" unfolding b by simp
  have d: "fle (Fin 7) (Fin 9)" by (rule minimum_below_later_samples [OF x a n c])
  from a b d show ?thesis by (intro conjI)
qed

section \<open>Claims about the job submission\<close>

lemma forced_stops_monitor [simp]:
  "filter (\<lambda>a. case a of JobKill \<Rightarrow> True | SubprocessCall c d \<Rightarrow> True | _ \<Rightarrow> False)
     (map Monitor ev) = []"
  by (induction ev) simp_all

text \<open>
  C9: with \<open>wait\<close> enabled, when the monitor returns true the call kills the job handle
  and then issues the terminate command for the job name; when the monitor returns false
  it does neither.
\<close>

theorem kill_and_terminate_only_on_success:
  "(fst (monitor_job ti tf (path_join TEMP_DIR (job_name @ ''.sta'')) reads) = Some True \<longrightarrow>
      fst (create_and_submit_job ti tf path_join job_name TEMP_DIR model_name True reads)
      \<and> forced_stops (snd (create_and_submit_job ti tf path_join job_name TEMP_DIR model_name True reads))
         = [JobKill, SubprocessCall (''abaqus terminate job='' @ job_name) TEMP_DIR])
   \<and> (fst (monitor_job ti tf (path_join TEMP_DIR (job_name @ ''.sta'')) reads) = Some False \<longrightarrow>
      fst (create_and_submit_job ti tf path_join job_name TEMP_DIR model_name True reads)
      \<and> forced_stops (snd (create_and_submit_job ti tf path_join job_name TEMP_DIR model_name True reads))
         = [])"
  by (cases "monitor_job ti tf (path_join TEMP_DIR (job_name @ ''.sta'')) reads")
    (auto simp add: create_and_submit_job_def forced_stops_def)

theorem kill_and_terminate_only_on_success_witness:
  "fst (monitor_job sample_int sample_float ((\<lambda>d f. d @ ''/'' @ f) ''/tmp/run'' (''Job-1'' @ ''.sta''))
      [None, Some sample_file]) = Some True
   \<and> fst (create_and_submit_job sample_int sample_float (\<lambda>d f. d @ ''/'' @ f) ''Job-1'' ''/tmp/run''
      ''Model-1'' True [None, Some sample_file])
   \<and> forced_stops (snd (create_and_submit_job sample_int sample_float (\<lambda>d f. d @ ''/'' @ f) ''Job-1''
      ''/tmp/run'' ''Model-1'' True [None, Some sample_file]))
      = [JobKill, SubprocessCall (''abaqus terminate job='' @ ''Job-1'') ''/tmp/run'']
   \<and> fst (monitor_job sample_int sample_float ((\<lambda>d f. d @ ''/'' @ f) ''/tmp/run'' (''Job-1'' @ ''.sta''))
      [None, Some (take 6 sample_file @ ['' ANALYSIS ABORTED''])]) = Some False
   \<and> fst (create_and_submit_job sample_int sample_float (\<lambda>d f. d @ ''/'' @ f) ''Job-1'' ''/tmp/run''
      ''Model-1'' True [None, Some (take 6 sample_file @ ['' ANALYSIS ABORTED''])])
   \<and> forced_stops (snd (create_and_submit_job sample_int sample_float (\<lambda>d f. d @ ''/'' @ f) ''Job-1''
      ''/tmp/run'' ''Model-1'' True [None, Some (take 6 sample_file @ ['' ANALYSIS ABORTED''])]))
      = []"
proof -
  let ?pj = "\<lambda>d f. d @ ''/'' @ (f::string)"
  let ?ok = "[None, Some sample_file]"
  let ?bad = "[None, Some (take 6 sample_file @ ['' ANALYSIS ABORTED''])]"
  have a: "fst (monitor_job sample_int sample_float (?pj ''/tmp/run'' (''Job-1'' @ ''.sta'')) ?ok) = Some True"
    by code_simp
  have b: "fst (monitor_job sample_int sample_float (?pj ''/tmp/run'' (''Job-1'' @ ''.sta'')) ?bad) = Some False"
    by code_simp
  note t = kill_and_terminate_only_on_success [of sample_int sample_float ?pj "''/tmp/run''" "''Job-1''"]
  from a t [of ?ok "''Model-1''", THEN conjunct1]
  have a': "fst (create_and_submit_job sample_int sample_float ?pj ''Job-1'' ''/tmp/run'' ''Model-1'' True ?ok)
      \<and> forced_stops (snd (create_and_submit_job sample_int sample_float ?pj ''Job-1'' ''/tmp/run''
           ''Model-1'' True ?ok))
         = [JobKill, SubprocessCall (''abaqus terminate job='' @ ''Job-1'') ''/tmp/run'']"
    by (rule rev_mp)
  from b t [of ?bad "''Model-1''", THEN conjunct2]
  have b': "fst (create_and_submit_job sample_int sample_float ?pj ''Job-1'' ''/tmp/run'' ''Model-1'' True ?bad)
      \<and> forced_stops (snd (create_and_submit_job sample_int sample_float ?pj ''Job-1'' ''/tmp/run''
           ''Model-1'' True ?bad)) = []"
    by (rule rev_mp)
  from a a' b b' show ?thesis by blast
qed

end
